theory Spec2Isabelle
  imports Main
begin

section \<open>Python values and exceptions\<close>

text \<open>
  The module \<^verbatim>\<open>physical_constants.py\<close> formats units and uncertain values for a
  typesetting macro file.  Its two functions work on Python strings, which are modelled
  as \<^typ>\<open>string\<close> restricted to ASCII (the regular expression classes \<^verbatim>\<open>\d\<close>,
  \<^verbatim>\<open>\b\<close> are taken with their ASCII meaning).  Integers are unbounded, as in Python;
  the interpreter's configurable limit on the length of a decimal string passed to
  \<^verbatim>\<open>int\<close> is not part of the model.

  The exceptions the two functions can raise are values of \<open>error\<close>:
  \<^item> \<open>KeyError base\<close>: the lookup \<^verbatim>\<open>unit_map[base]\<close> of a symbol that is not in the table
    (the specification calls it UnknownUnitError);
  \<^item> \<open>AttributeError\<close>: \<^verbatim>\<open>number_regex.fullmatch(...)\<close> returned \<^verbatim>\<open>None\<close> and
    \<^verbatim>\<open>.groups()\<close> was called on it (the specification calls it MalformedNumberError);
  \<^item> \<open>ValueError\<close>: \<^verbatim>\<open>int(...)\<close> of a string that is not an integer literal;
  \<^item> \<open>OverflowError\<close>: \<^verbatim>\<open>ceil(...)\<close> of the float infinity.
\<close>

datatype error = KeyError string | AttributeError | ValueError | OverflowError

abbreviation tex :: "string \<Rightarrow> string" where
  "tex name \<equiv> CHR 0x5C # name"

section \<open>The regular expression engine\<close>

text \<open>
  Both patterns of the module use only character classes, sequencing, greedy optional
  parts, greedy repetition of a character class, capturing groups and the word boundary
  \<^verbatim>\<open>\b\<close>.  A match state is the character before the current position (for
  \<^verbatim>\<open>\b\<close>), the rest of the subject and the groups captured so far.
\<close>

datatype regex =
    Cls "char list"
  | Seq regex regex
  | Opt regex
  | Many0 "char list"
  | Many1 "char list"
  | Grp nat regex
  | WordB

type_synonym caps = "(nat \<times> string) list"
type_synonym mstate = "char option \<times> string \<times> caps"

definition digit_chars :: "char list" where
  "digit_chars = ''0123456789''"

definition letter_chars :: "char list" where
  "letter_chars = ''abcdefghijklmnopqrstuvwxyzABCDEFGHIJKLMNOPQRSTUVWXYZ''"

definition word_chars :: "char list" where
  "word_chars = letter_chars @ digit_chars @ ''_''"

definition is_word :: "char option \<Rightarrow> bool" where
  "is_word c = (case c of None \<Rightarrow> False | Some x \<Rightarrow> x \<in> set word_chars)"

definition next_char :: "string \<Rightarrow> char option" where
  "next_char s = (case s of [] \<Rightarrow> None | c # _ \<Rightarrow> Some c)"

text \<open>
  Greedy repetition of a class: take one more character first, and fall back to
  stopping here only when the continuation fails after every longer run.
\<close>

fun many :: "char list \<Rightarrow> char option \<Rightarrow> string \<Rightarrow> caps \<Rightarrow> (mstate \<Rightarrow> 'a option) \<Rightarrow> 'a option" where
  "many cs p [] g k = k (p, [], g)"
| "many cs p (c # s) g k =
     (if c \<in> set cs
      then (case many cs (Some c) s g k of Some r \<Rightarrow> Some r | None \<Rightarrow> k (p, c # s, g))
      else k (p, c # s, g))"

text \<open>
  The backtracking matcher in continuation-passing style: \<open>rx_match r st k\<close> tries the
  alternatives of \<open>r\<close> at \<open>st\<close> in the order of the \<^verbatim>\<open>re\<close> module (greedy first) and
  returns the first result the continuation \<open>k\<close> accepts.
\<close>

fun rx_match :: "regex \<Rightarrow> mstate \<Rightarrow> (mstate \<Rightarrow> 'a option) \<Rightarrow> 'a option" where
  "rx_match (Cls cs) st k =
     (case st of (p, s, g) \<Rightarrow>
       (case s of [] \<Rightarrow> None
        | c # s' \<Rightarrow> if c \<in> set cs then k (Some c, s', g) else None))"
| "rx_match (Seq a b) st k = rx_match a st (\<lambda>st'. rx_match b st' k)"
| "rx_match (Opt a) st k =
     (case rx_match a st k of Some r \<Rightarrow> Some r | None \<Rightarrow> k st)"
| "rx_match (Many0 cs) st k = (case st of (p, s, g) \<Rightarrow> many cs p s g k)"
| "rx_match (Many1 cs) st k =
     (case st of (p, s, g) \<Rightarrow>
       (case s of [] \<Rightarrow> None
        | c # s' \<Rightarrow> if c \<in> set cs then many cs (Some c) s' g k else None))"
| "rx_match (Grp n a) st k =
     (case st of (p, s, g) \<Rightarrow>
        rx_match a st (\<lambda>st'. case st' of (p', s', g') \<Rightarrow>
          k (p', s', (n, take (length s - length s') s) # g')))"
| "rx_match WordB st k =
     (case st of (p, s, g) \<Rightarrow>
        if is_word p \<noteq> is_word (next_char s) then k st else None)"

text \<open>A group that did not take part in the match reads as the empty string.\<close>

definition group :: "caps \<Rightarrow> nat \<Rightarrow> string" where
  "group g n = (case map_of g n of None \<Rightarrow> [] | Some t \<Rightarrow> t)"

text \<open>\<^verbatim>\<open>fullmatch\<close>: the first way of matching that ends at the end of the subject.\<close>

definition fullmatch :: "regex \<Rightarrow> string \<Rightarrow> caps option" where
  "fullmatch r s =
     rx_match r (None, s, []) (\<lambda>st. case st of (p, s', g) \<Rightarrow> if s' = [] then Some g else None)"

text \<open>
  \<^verbatim>\<open>findall\<close>: scan from the left; after a match continue behind it, otherwise move on
  by one character.  (A match that consumes nothing also moves on by one character.)
\<close>

function findall_from :: "regex \<Rightarrow> char option \<Rightarrow> string \<Rightarrow> caps list" where
  "findall_from r p s =
     (case rx_match r (p, s, []) Some of
        None \<Rightarrow> (case s of [] \<Rightarrow> [] | c # cs \<Rightarrow> findall_from r (Some c) cs)
      | Some (p', s', g) \<Rightarrow>
          g # (if length s' < length s then findall_from r p' s'
               else (case s of [] \<Rightarrow> [] | c # cs \<Rightarrow> findall_from r (Some c) cs)))"
  by pat_completeness auto
termination
  by (relation "measure (\<lambda>(r, p, s). length s)") auto

declare findall_from.simps [simp del]

definition findall3 :: "regex \<Rightarrow> string \<Rightarrow> (string \<times> string \<times> string) list" where
  "findall3 r s = map (\<lambda>g. (group g 1, group g 2, group g 3)) (findall_from r None s)"

section \<open>The unit formatter\<close>

definition unit_map :: "(string \<times> string) list" where
  "unit_map =
    [(''A'', tex ''ampere''),
     (''C'', tex ''coulomb''),
     (''F'', tex ''farad''),
     (''GeV'', tex ''giga'' @ tex ''electronvolt''),
     (''Hz'', tex ''hertz''),
     (''J'', tex ''joule''),
     (''K'', tex ''kelvin''),
     (''MHz'', tex ''mega'' @ tex ''hertz''),
     (''MeV'', tex ''mega'' @ tex ''electronvolt''),
     (''N'', tex ''newton''),
     (''Pa'', tex ''pascal''),
     (''S'', tex ''siemens''),
     (''T'', tex ''tesla''),
     (''V'', tex ''volt''),
     (''W'', tex ''watt''),
     (''Wb'', tex ''weber''),
     (''c'', tex ''clight''),
     (''eV'', tex ''electronvolt''),
     (''fm'', tex ''femto'' @ tex ''meter''),
     (''kg'', tex ''kilogram''),
     (''m'', tex ''metre''),
     (''mol'', tex ''mole''),
     (''ohm'', tex ''ohm''),
     (''s'', tex ''second''),
     (''sr'', tex ''steradian''),
     (''u'', tex ''atomicmassunit'')]"

text \<open>\<^verbatim>\<open>unit_regex = re.compile(r'\b([a-zA-Z]+)(?:\^(-?)(\d+))?\b')\<close>\<close>

definition unit_regex :: regex where
  "unit_regex =
     Seq WordB
      (Seq (Grp 1 (Many1 letter_chars))
        (Seq (Opt (Seq (Cls ''^'') (Seq (Grp 2 (Opt (Cls ''-''))) (Grp 3 (Many1 digit_chars)))))
          WordB))"

text \<open>The loop of \<^verbatim>\<open>format_unit\<close> over the \<open>(base, sign, exp)\<close> triples that \<^verbatim>\<open>findall\<close> returns.\<close>

fun format_unit_loop :: "string \<Rightarrow> (string \<times> string \<times> string) list \<Rightarrow> error + string" where
  "format_unit_loop unit [] = Inr unit"
| "format_unit_loop unit ((base, sign, exp) # rest) =
     (let unit1 = (if sign \<noteq> [] then unit @ tex ''per'' else unit);
          unit2 = (if exp = ''1'' then unit1
                   else if exp = ''2'' then unit1 @ tex ''square''
                   else if exp = ''3'' then unit1 @ tex ''cube''
                   else if exp \<noteq> [] then unit1 @ tex ''raiseto{'' @ exp @ ''}''
                   else unit1)
      in case map_of unit_map base of
           None \<Rightarrow> Inl (KeyError base)
         | Some markup \<Rightarrow> format_unit_loop (unit2 @ markup) rest)"

definition format_unit :: "string \<Rightarrow> error + string" where
  "format_unit unit_input = format_unit_loop [] (findall3 unit_regex unit_input)"

section \<open>Integers, strings and floats of Python\<close>

definition is_digit :: "char \<Rightarrow> bool" where
  "is_digit c = (c \<in> set digit_chars)"

definition digit_val :: "char \<Rightarrow> nat" where
  "digit_val c = of_char c - 48"

definition nat_of_digits :: "string \<Rightarrow> nat" where
  "nat_of_digits ds = foldl (\<lambda>n c. 10 * n + digit_val c) 0 ds"

text \<open>
  \<^verbatim>\<open>int(s)\<close> for the strings a group of \<^verbatim>\<open>number_regex\<close> can hold: an optional sign and
  decimal digits.  A string without a digit raises ValueError.
\<close>

definition py_int :: "string \<Rightarrow> error + int" where
  "py_int s =
     (let neg = (s \<noteq> [] \<and> hd s = CHR ''-'');
          body = (if s \<noteq> [] \<and> (hd s = CHR ''+'' \<or> hd s = CHR ''-'') then tl s else s)
      in if body = [] \<or> \<not> list_all is_digit body then Inl ValueError
         else Inr (if neg then - int (nat_of_digits body) else int (nat_of_digits body)))"

text \<open>\<^verbatim>\<open>str(n)\<close> of a non-negative integer.\<close>

fun py_str :: "nat \<Rightarrow> string" where
  "py_str n = (if n < 10 then [digit_chars ! n] else py_str (n div 10) @ [digit_chars ! (n mod 10)])"

declare py_str.simps [simp del]

text \<open>
  \<^verbatim>\<open>float('<digits>e<exponent>')\<close> with a negative exponent is the IEEE 754 binary64 number
  nearest to \<open>n / 10 ^ k\<close>, ties to even, where \<open>n\<close> is the value of the digits and \<open>k\<close> the
  negated exponent; \<open>Finite m e\<close> stands for \<open>m * 2 ^ e\<close>.  The conversion rounds in integer
  arithmetic: \<open>b\<close> is the binary exponent of the quotient, \<open>e\<close> the exponent of the last
  mantissa bit (not below that of the subnormal numbers) and \<open>m\<close> the rounded mantissa.
\<close>

datatype pyfloat = Finite nat int | Infinity

fun bitlen :: "nat \<Rightarrow> nat" where
  "bitlen n = (if n = 0 then 0 else Suc (bitlen (n div 2)))"

declare bitlen.simps [simp del]

definition round_half_even :: "nat \<Rightarrow> nat \<Rightarrow> nat" where
  "round_half_even n d =
     (let q = n div d; r = n mod d
      in if 2 * r < d then q else if d < 2 * r then q + 1 else if even q then q else q + 1)"

definition float_of_decimal :: "nat \<Rightarrow> nat \<Rightarrow> pyfloat" where
  "float_of_decimal n k =
     (if n = 0 then Finite 0 0
      else
        let d = 10 ^ k;
            t = int (bitlen n) - int (bitlen d);
            b = (if (if 0 \<le> t then d * 2 ^ nat t \<le> n else d \<le> n * 2 ^ nat (- t)) then t else t - 1);
            e = max (b - 52) (- 1074);
            m = (if 0 \<le> e then round_half_even n (d * 2 ^ nat e)
                 else round_half_even (n * 2 ^ nat (- e)) d)
        in if 971 < e \<or> (e = 971 \<and> m = 2 ^ 53) then Infinity else Finite m e)"

text \<open>\<^verbatim>\<open>math.ceil\<close> of a float is exact on finite numbers and raises on infinity.\<close>

definition py_ceil :: "pyfloat \<Rightarrow> error + nat" where
  "py_ceil x =
     (case x of
        Infinity \<Rightarrow> Inl OverflowError
      | Finite m e \<Rightarrow>
          Inr (if 0 \<le> e then m * 2 ^ nat e
               else (m + 2 ^ nat (- e) - 1) div 2 ^ nat (- e)))"

section \<open>The uncertainty aligner\<close>

text \<open>\<^verbatim>\<open>number_regex = re.compile(r'([+-]?)(\d+)(\.?)(\d*)(e?)([+-]?\d*)')\<close>\<close>

definition number_regex :: regex where
  "number_regex =
     Seq (Grp 1 (Opt (Cls ''+-'')))
      (Seq (Grp 2 (Many1 digit_chars))
        (Seq (Grp 3 (Opt (Cls ''.'')))
          (Seq (Grp 4 (Many0 digit_chars))
            (Seq (Grp 5 (Opt (Cls ''e'')))
              (Grp 6 (Seq (Opt (Cls ''+-'')) (Many0 digit_chars)))))))"

text \<open>\<^verbatim>\<open>.groups()\<close> of a match of \<^verbatim>\<open>number_regex\<close>: the six groups, indexed from 0.\<close>

definition groups6 :: "caps \<Rightarrow> string list" where
  "groups6 g = map (group g) [1, 2, 3, 4, 5, 6]"

definition number_parts :: "string \<Rightarrow> (string list) option" where
  "number_parts s = map_option groups6 (fullmatch number_regex s)"

text \<open>The exponent of a number: \<^verbatim>\<open>int(parts[5]) if parts[5] else 0\<close>.\<close>

definition exp_of :: "string list \<Rightarrow> error + int" where
  "exp_of parts = (if parts ! 5 \<noteq> [] then py_int (parts ! 5) else Inr 0)"

definition discrepancy :: "int \<Rightarrow> int \<Rightarrow> string list \<Rightarrow> string list \<Rightarrow> int" where
  "discrepancy val_exp unc_exp val_parts unc_parts =
     (unc_exp - int (length (unc_parts ! 3))) - (val_exp - int (length (val_parts ! 3)))"

text \<open>The digits shown between the parentheses (the \<^verbatim>\<open>if int(unc_digits): ... else: ...\<close> block).\<close>

definition shown_digits :: "string list \<Rightarrow> string list \<Rightarrow> error + string" where
  "shown_digits val_parts unc_parts =
     (let unc_digits = unc_parts ! 1 @ unc_parts ! 3 in
      case py_int unc_digits of
        Inl err \<Rightarrow> Inl err
      | Inr n \<Rightarrow>
          if n \<noteq> 0 then
            (case exp_of val_parts of
               Inl err \<Rightarrow> Inl err
             | Inr val_exp \<Rightarrow>
                (case exp_of unc_parts of
                   Inl err \<Rightarrow> Inl err
                 | Inr unc_exp \<Rightarrow>
                    (let exp_discrepancy = discrepancy val_exp unc_exp val_parts unc_parts in
                     if exp_discrepancy < 0 then
                       (case py_ceil (float_of_decimal (nat n) (nat (- exp_discrepancy))) of
                          Inl err \<Rightarrow> Inl err
                        | Inr c \<Rightarrow> Inr (py_str c))
                     else Inr (unc_digits @ replicate (nat exp_discrepancy) CHR ''0''))))
          else Inr ''0'')"

definition format_uncertain_value :: "string \<Rightarrow> string \<Rightarrow> error + string" where
  "format_uncertain_value value_input uncertainty_input =
     (case number_parts value_input of
        None \<Rightarrow> Inl AttributeError
      | Some val_parts \<Rightarrow>
         (case number_parts uncertainty_input of
            None \<Rightarrow> Inl AttributeError
          | Some unc_parts \<Rightarrow>
             (case shown_digits val_parts unc_parts of
                Inl err \<Rightarrow> Inl err
              | Inr unc_digits \<Rightarrow>
                  Inr (val_parts ! 0 @ val_parts ! 1 @ val_parts ! 2 @ val_parts ! 3
                       @ ''('' @ unc_digits @ '')'' @ val_parts ! 4 @ val_parts ! 5))))"

section \<open>Notions of the specification\<close>

text \<open>
  The decimal-literal grammar in the words of the specification: an optional leading sign,
  a mandatory integer digit run, an optional decimal point, an optional fractional digit
  run, an optional exponent marker and an optional signed exponent digit run.  A signed
  digit run is a digit run with an optional sign before it; a sign alone is none.
\<close>

definition sign_text :: "string \<Rightarrow> bool" where
  "sign_text t = (t = [] \<or> t = ''+'' \<or> t = ''-'')"











text \<open>The exact ceiling of \<open>n * 10 ^ (- k)\<close>, computed on integers.\<close>

definition exact_ceiling :: "nat \<Rightarrow> nat \<Rightarrow> nat" where
  "exact_ceiling n k = (n + 10 ^ k - 1) div 10 ^ k"

text \<open>Removing the parenthetical: everything from the first \<open>(\<close> to the next \<open>)\<close>.\<close>

definition strip_parenthetical :: "string \<Rightarrow> string" where
  "strip_parenthetical s =
     takeWhile (\<lambda>c. c \<noteq> CHR ''('') s
       @ drop 1 (dropWhile (\<lambda>c. c \<noteq> CHR '')'') (dropWhile (\<lambda>c. c \<noteq> CHR ''('') s))"

section \<open>The greedy reading of the number pattern\<close>


text \<open>
  What the backtracking matcher finds for \<^verbatim>\<open>number_regex\<close>, written as a deterministic
  scan: each part takes as much as it can.  \<open>scan6\<close> to \<open>scan1\<close> read the pattern from its
  sixth group backwards; the lemmas below show that the matcher computes them.
\<close>

definition take_opt :: "char list \<Rightarrow> string \<Rightarrow> string" where
  "take_opt cs s = (case s of [] \<Rightarrow> [] | c # _ \<Rightarrow> if c \<in> set cs then [c] else [])"

definition last_char :: "char option \<Rightarrow> string \<Rightarrow> char option" where
  "last_char p ds = (if ds = [] then p else Some (last ds))"

definition at_end :: "mstate \<Rightarrow> caps option" where
  "at_end st = (case st of (p, s', g) \<Rightarrow> if s' = [] then Some g else None)"

definition scan6 :: "string \<Rightarrow> caps \<Rightarrow> caps option" where
  "scan6 s g =
     (if list_all is_digit (drop (length (take_opt ''+-'' s)) s) then Some ((6, s) # g) else None)"

definition scan5 :: "string \<Rightarrow> caps \<Rightarrow> caps option" where
  "scan5 s g = scan6 (drop (length (take_opt ''e'' s)) s) ((5, take_opt ''e'' s) # g)"

definition scan4 :: "string \<Rightarrow> caps \<Rightarrow> caps option" where
  "scan4 s g = scan5 (dropWhile is_digit s) ((4, takeWhile is_digit s) # g)"

definition scan3 :: "string \<Rightarrow> caps \<Rightarrow> caps option" where
  "scan3 s g = scan4 (drop (length (take_opt ''.'' s)) s) ((3, take_opt ''.'' s) # g)"

definition scan2 :: "string \<Rightarrow> caps \<Rightarrow> caps option" where
  "scan2 s g =
     (if takeWhile is_digit s = [] then None
      else scan3 (dropWhile is_digit s) ((2, takeWhile is_digit s) # g))"

definition scan1 :: "string \<Rightarrow> caps \<Rightarrow> caps option" where
  "scan1 s g = scan2 (drop (length (take_opt ''+-'' s)) s) ((1, take_opt ''+-'' s) # g)"

text \<open>The pattern from its sixth, fifth, ... second group to the end.\<close>

definition tail6 :: regex where
  "tail6 = Grp 6 (Seq (Opt (Cls ''+-'')) (Many0 digit_chars))"

definition tail5 :: regex where
  "tail5 = Seq (Grp 5 (Opt (Cls ''e''))) tail6"

definition tail4 :: regex where
  "tail4 = Seq (Grp 4 (Many0 digit_chars)) tail5"

definition tail3 :: regex where
  "tail3 = Seq (Grp 3 (Opt (Cls ''.''))) tail4"

definition tail2 :: regex where
  "tail2 = Seq (Grp 2 (Many1 digit_chars)) tail3"

text \<open>The optional exponent of a unit token: \<^verbatim>\<open>\^(-?)(\d+)\<close>.\<close>

definition exp_part :: regex where
  "exp_part = Seq (Cls ''^'') (Seq (Grp 2 (Opt (Cls ''-''))) (Grp 3 (Many1 digit_chars)))"



section \<open>The matcher computes the greedy reading\<close>

text \<open>
  Each stage lemma says that matching the rest of \<^verbatim>\<open>number_regex\<close> from one group on, up
  to the end of the subject, is the corresponding scan.  Backtracking into a shorter digit
  run never helps: where the longest run fails, every shorter one fails as well.
\<close>

lemma digit_cases: "is_digit c \<longleftrightarrow> c \<in> set ''0123456789''"
  by (simp add: is_digit_def digit_chars_def)

lemma not_digit [simp]: "\<not> is_digit CHR ''+''" "\<not> is_digit CHR ''-''" "\<not> is_digit CHR ''.''" "\<not> is_digit CHR ''e''"
  by (simp_all add: is_digit_def digit_chars_def)

lemma list_all_digit_set: "list_all is_digit s \<longleftrightarrow> set s \<subseteq> set digit_chars"
  by (auto simp: list_all_iff is_digit_def)

lemma many_end:
  assumes "\<And>p' s' g'. s' \<noteq> [] \<Longrightarrow> k (p', s', g') = None"
  shows "many cs p s g k = (if set s \<subseteq> set cs then k (last_char p s, [], g) else None)"
proof (induction s arbitrary: p)
  case Nil
  show ?case by (simp add: last_char_def)
next
  case (Cons c s)
  have lc: "last_char (Some c) s = last_char p (c # s)"
    by (simp add: last_char_def)
  show ?case
    using assms[of "c # s" p g] by (simp add: Cons.IH lc split: option.split)
qed

lemma many_greedy:
  assumes "set ds \<subseteq> set cs" and "r = [] \<or> hd r \<notin> set cs"
    and "\<And>p' q. q \<noteq> [] \<Longrightarrow> set q \<subseteq> set cs \<Longrightarrow>
           k (last_char p ds, r, g) = None \<Longrightarrow> k (p', q @ r, g) = None"
  shows "many cs p (ds @ r) g k = k (last_char p ds, r, g)"
  using assms
proof (induction ds arbitrary: p)
  case Nil
  then show ?case by (cases r) (auto simp: last_char_def)
next
  case (Cons d ds)
  have lc: "last_char (Some d) ds = last_char p (d # ds)"
    by (simp add: last_char_def)
  have IH: "many cs (Some d) (ds @ r) g k = k (last_char p (d # ds), r, g)"
  proof -
    have "many cs (Some d) (ds @ r) g k = k (last_char (Some d) ds, r, g)"
    proof (rule Cons.IH)
      show "set ds \<subseteq> set cs" using Cons.prems(1) by simp
      show "r = [] \<or> hd r \<notin> set cs" by (rule Cons.prems(2))
      fix p' q assume "q \<noteq> []" "set q \<subseteq> set cs" "k (last_char (Some d) ds, r, g) = None"
      then show "k (p', q @ r, g) = None"
        using Cons.prems(3)[of q p'] by (simp add: lc)
    qed
    then show ?thesis by (simp add: lc)
  qed
  have d: "d \<in> set cs" using Cons.prems(1) by simp
  show ?case
  proof (cases "k (last_char p (d # ds), r, g)")
    case None
    then have "k (p, (d # ds) @ r, g) = None"
      using Cons.prems(3)[of "d # ds" p] Cons.prems(1) by simp
    with None show ?thesis by (simp add: d IH)
  next
    case (Some x)
    then show ?thesis by (simp add: d IH)
  qed
qed

lemma stage6_raw:
  "rx_match (Grp 6 (Seq (Opt (Cls ''+-'')) (Many0 digit_chars))) (p, s, g) at_end = scan6 s g"
proof -
  define k :: "mstate \<Rightarrow> caps option"
    where "k = (\<lambda>st'. case st' of (p', s', g') \<Rightarrow> at_end (p', s', (6, take (length s - length s') s) # g'))"
  have k_end: "\<And>p' s' g'. s' \<noteq> [] \<Longrightarrow> k (p', s', g') = None"
    by (simp add: k_def at_end_def)
  have m: "\<And>p' t. many digit_chars p' t g k = (if list_all is_digit t then Some ((6, s) # g) else None)"
    by (simp add: many_end[of k, OF k_end] list_all_digit_set) (simp add: k_def at_end_def)
  have "rx_match (Grp 6 (Seq (Opt (Cls ''+-'')) (Many0 digit_chars))) (p, s, g) at_end
        = rx_match (Seq (Opt (Cls ''+-'')) (Many0 digit_chars)) (p, s, g) k"
    by (simp add: k_def)
  also have "\<dots> = scan6 s g"
  proof (cases s)
    case Nil
    then show ?thesis
      using m[of p "[]"] by (simp add: scan6_def take_opt_def)
  next
    case (Cons c s')
    then show ?thesis
      using m[of p s] m[of "Some c" s'] k_end[of s p g]
      by (auto simp add: scan6_def take_opt_def is_digit_def digit_chars_def)
  qed
  finally show ?thesis .
qed

lemma number_regex_tail: "number_regex = Seq (Grp 1 (Opt (Cls ''+-''))) tail2"
  by (simp add: number_regex_def tail2_def tail3_def tail4_def tail5_def tail6_def)

lemma stage6: "rx_match tail6 (p, s, g) at_end = scan6 s g"
  unfolding tail6_def by (rule stage6_raw)

lemma cont6: "(\<lambda>st. rx_match tail6 st at_end) = (\<lambda>st. case st of (p, s, g) \<Rightarrow> scan6 s g)"
  by (rule ext) (simp add: stage6 split: prod.split)

text \<open>Failure of a scan does not depend on the groups collected so far.\<close>

lemma scan6_None: "scan6 s g = None \<longleftrightarrow> \<not> list_all is_digit (drop (length (take_opt ''+-'' s)) s)"
  by (simp add: scan6_def)

lemma scan5_None: "scan5 s g = None \<longleftrightarrow> scan5 s g' = None"
  by (simp add: scan5_def scan6_None)



lemma scan6_nondigit:
  "\<not> is_digit c \<Longrightarrow> c \<notin> set ''+-'' \<Longrightarrow> scan6 (c # s) g = None"
  by (simp add: scan6_def take_opt_def)

lemma scan5_digits:
  assumes "q \<noteq> []" "set q \<subseteq> set digit_chars" "r = [] \<or> hd r \<notin> set digit_chars"
    "scan5 (q @ r) g \<noteq> None"
  shows "r = []"
proof -
  obtain c q' where q: "q = c # q'" using assms(1) by (cases q) auto
  have c: "is_digit c" using assms(2) q by (simp add: is_digit_def)
  then have "c \<noteq> CHR ''e''" "c \<noteq> CHR ''+''" "c \<noteq> CHR ''-''" by auto
  then have "list_all is_digit (q @ r)"
    using assms(4) by (simp add: q scan5_def scan6_def take_opt_def split: if_splits)
  then have "list_all is_digit r" by simp
  with assms(3) show ?thesis by (cases r) (auto simp: is_digit_def)
qed

lemma scan5_Nil: "scan5 [] g \<noteq> None"
  by (simp add: scan5_def scan6_def take_opt_def)

lemma stage5: "rx_match tail5 (p, s, g) at_end = scan5 s g"
proof (cases s)
  case Nil
  then show ?thesis
    by (simp add: tail5_def cont6 scan5_def take_opt_def)
next
  case (Cons c s')
  show ?thesis
  proof (cases "c = CHR ''e''")
    case True
    have "scan6 (c # s') ((5, []) # g) = None"
      using True by (simp add: scan6_nondigit)
    then show ?thesis
      using True Cons by (simp add: tail5_def cont6 scan5_def take_opt_def split: option.split)
  next
    case False
    then show ?thesis
      using Cons by (simp add: tail5_def cont6 scan5_def take_opt_def)
  qed
qed

lemma cont5: "(\<lambda>st. rx_match tail5 st at_end) = (\<lambda>st. case st of (p, s, g) \<Rightarrow> scan5 s g)"
  by (rule ext) (simp add: stage5 split: prod.split)

lemma takeWhile_digit_set: "set (takeWhile is_digit s) \<subseteq> set digit_chars"
  using set_takeWhileD[of _ is_digit s] by (auto simp: is_digit_def)

lemma dropWhile_digit_hd: "dropWhile is_digit s = [] \<or> hd (dropWhile is_digit s) \<notin> set digit_chars"
  using hd_dropWhile[of is_digit s] by (auto simp: is_digit_def)

lemma length_dropWhile_take:
  "take (length s - length (dropWhile P s)) s = takeWhile P s"
proof -
  have "length s - length (dropWhile P s) = length (takeWhile P s)"
    by (metis add_diff_cancel_right' length_append takeWhile_dropWhile_id)
  then show ?thesis
    by (metis append_eq_conv_conj takeWhile_dropWhile_id)
qed

lemma stage4: "rx_match tail4 (p, s, g) at_end = scan4 s g"
proof -
  define k :: "mstate \<Rightarrow> caps option"
    where "k = (\<lambda>st'. case st' of (p', s', g') \<Rightarrow> scan5 s' ((4, take (length s - length s') s) # g'))"
  let ?ds = "takeWhile is_digit s" and ?r = "dropWhile is_digit s"
  have "rx_match tail4 (p, s, g) at_end = many digit_chars p s g k"
    by (simp add: tail4_def cont5 k_def)
  also have "\<dots> = many digit_chars p (?ds @ ?r) g k"
    by simp
  also have "\<dots> = k (last_char p ?ds, ?r, g)"
  proof (rule many_greedy[OF takeWhile_digit_set dropWhile_digit_hd])
    fix p' q assume q: "q \<noteq> []" "set q \<subseteq> set digit_chars"
      and none: "k (last_char p ?ds, ?r, g) = None"
    show "k (p', q @ ?r, g) = None"
    proof (rule ccontr)
      assume "k (p', q @ ?r, g) \<noteq> None"
      then have "scan5 (q @ ?r) ((4, take (length s - length (q @ ?r)) s) # g) \<noteq> None"
        by (simp add: k_def)
      then have "?r = []"
        by (rule scan5_digits[OF q(1) q(2) dropWhile_digit_hd])
      with none have "scan5 [] ((4, take (length s - length ?r) s) # g) = None"
        by (simp only: k_def prod.case)
      then show False
        using scan5_Nil by blast
    qed
  qed
  also have "\<dots> = scan4 s g"
    by (simp add: k_def scan4_def length_dropWhile_take)
  finally show ?thesis .
qed

lemma cont4: "(\<lambda>st. rx_match tail4 st at_end) = (\<lambda>st. case st of (p, s, g) \<Rightarrow> scan4 s g)"
  by (rule ext) (simp add: stage4 split: prod.split)

lemma scan4_dot: "scan4 (CHR ''.'' # s) g = None"
  by (simp add: scan4_def scan5_def scan6_def take_opt_def)

lemma stage3: "rx_match tail3 (p, s, g) at_end = scan3 s g"
proof (cases s)
  case Nil
  then show ?thesis
    by (simp add: tail3_def cont4 scan3_def take_opt_def)
next
  case (Cons c s')
  show ?thesis
  proof (cases "c = CHR ''.''")
    case True
    then show ?thesis
      using Cons scan4_dot[of s' "(3, []) # g"]
      by (simp add: tail3_def cont4 scan3_def take_opt_def split: option.split)
  next
    case False
    then show ?thesis
      using Cons by (simp add: tail3_def cont4 scan3_def take_opt_def)
  qed
qed

lemma cont3: "(\<lambda>st. rx_match tail3 st at_end) = (\<lambda>st. case st of (p, s, g) \<Rightarrow> scan3 s g)"
  by (rule ext) (simp add: stage3 split: prod.split)

lemma scan3_after_digits:
  assumes "q \<noteq> []" "set q \<subseteq> set digit_chars" "r = [] \<or> hd r \<notin> set digit_chars"
    "scan3 (q @ r) g \<noteq> None"
  shows "scan3 r g' \<noteq> None"
proof -
  obtain c q' where q: "q = c # q'" using assms(1) by (cases q) auto
  have c: "is_digit c" using assms(2) q by (simp add: is_digit_def)
  then have cdot: "c \<noteq> CHR ''.''" by auto
  have qd: "\<forall>x\<in>set q. is_digit x" using assms(2) by (auto simp: is_digit_def)
  have rd: "dropWhile is_digit r = r" "takeWhile is_digit r = []"
    using assms(3) by (cases r; auto simp: is_digit_def)+
  have dq: "dropWhile is_digit (q @ r) = r" "takeWhile is_digit (q @ r) = q"
    using qd rd by (simp_all add: dropWhile_append2 takeWhile_append2)
  have "take_opt ''.'' (q @ r) = []"
    using cdot by (simp add: q take_opt_def)
  then have "scan3 (q @ r) g = scan5 r ((4, q) # (3, []) # g)"
    by (simp add: scan3_def scan4_def dq)
  with assms(4) have "scan5 r ((4, q) # (3, []) # g) \<noteq> None"
    by simp
  then have s5: "scan5 r ((4, []) # (3, []) # g') \<noteq> None"
    using scan5_None[of r "(4, q) # (3, []) # g" "(4, []) # (3, []) # g'"] by simp
  have "r = [] \<or> hd r \<noteq> CHR ''.''"
  proof (cases r)
    case Nil then show ?thesis by simp
  next
    case (Cons d r')
    show ?thesis
    proof (rule ccontr)
      assume "\<not> ?thesis"
      then have "d = CHR ''.''" using Cons by simp
      then show False using s5 Cons by (simp add: scan5_def scan6_def take_opt_def)
    qed
  qed
  then have "take_opt ''.'' r = []"
    by (cases r) (auto simp: take_opt_def)
  then show ?thesis
    using s5 rd by (simp add: scan3_def scan4_def)
qed

lemma stage2: "rx_match tail2 (p, s, g) at_end = scan2 s g"
proof (cases s)
  case Nil
  then show ?thesis
    by (simp add: tail2_def cont3 scan2_def)
next
  case (Cons c s')
  show ?thesis
  proof (cases "is_digit c")
    case False
    then show ?thesis
      using Cons by (simp add: tail2_def cont3 scan2_def is_digit_def)
  next
    case True
    define k :: "mstate \<Rightarrow> caps option"
      where "k = (\<lambda>st'. case st' of (p', t, g') \<Rightarrow> scan3 t ((2, take (length s - length t) s) # g'))"
    let ?ds = "takeWhile is_digit s'" and ?r = "dropWhile is_digit s'"
    have len: "take (length s - length ?r) s = c # ?ds"
    proof -
      have "dropWhile is_digit s = ?r" "takeWhile is_digit s = c # ?ds"
        using True Cons by simp_all
      then show ?thesis
        using length_dropWhile_take[of s is_digit] by simp
    qed
    have "rx_match tail2 (p, s, g) at_end = many digit_chars (Some c) s' g k"
      using True Cons by (simp add: tail2_def cont3 k_def is_digit_def)
    also have "\<dots> = many digit_chars (Some c) (?ds @ ?r) g k"
      by simp
    also have "\<dots> = k (last_char (Some c) ?ds, ?r, g)"
    proof (rule many_greedy[OF takeWhile_digit_set dropWhile_digit_hd])
      fix p' q assume q: "q \<noteq> []" "set q \<subseteq> set digit_chars"
        and none: "k (last_char (Some c) ?ds, ?r, g) = None"
      show "k (p', q @ ?r, g) = None"
      proof (rule ccontr)
        assume "k (p', q @ ?r, g) \<noteq> None"
        then have "scan3 (q @ ?r) ((2, take (length s - length (q @ ?r)) s) # g) \<noteq> None"
          by (simp add: k_def)
        then have "scan3 ?r ((2, take (length s - length ?r) s) # g) \<noteq> None"
          by (rule scan3_after_digits[OF q(1) q(2) dropWhile_digit_hd])
        with none show False
          by (simp only: k_def prod.case)
      qed
    qed
    also have "\<dots> = scan3 ?r ((2, c # ?ds) # g)"
      by (simp only: k_def prod.case len)
    also have "\<dots> = scan2 s g"
      using True Cons by (simp add: scan2_def)
    finally show ?thesis .
  qed
qed

lemma cont2: "(\<lambda>st. rx_match tail2 st at_end) = (\<lambda>st. case st of (p, s, g) \<Rightarrow> scan2 s g)"
  by (rule ext) (simp add: stage2 split: prod.split)

lemma scan2_sign: "c \<in> set ''+-'' \<Longrightarrow> scan2 (c # s) g = None"
  by (auto simp add: scan2_def)

lemma stage1: "rx_match number_regex (p, s, g) at_end = scan1 s g"
proof (cases s)
  case Nil
  then show ?thesis
    by (simp add: number_regex_tail cont2 scan1_def take_opt_def)
next
  case (Cons c s')
  show ?thesis
  proof (cases "c \<in> set ''+-''")
    case True
    then show ?thesis
      using Cons scan2_sign[OF True, of s' "(1, []) # g"]
      by (simp add: number_regex_tail cont2 scan1_def take_opt_def split: option.split)
  next
    case False
    then show ?thesis
      using Cons by (simp add: number_regex_tail cont2 scan1_def take_opt_def)
  qed
qed

lemma fullmatch_number: "fullmatch number_regex s = scan1 s []"
proof -
  have "fullmatch number_regex s = rx_match number_regex (None, s, []) at_end"
    by (simp add: fullmatch_def at_end_def[abs_def])
  then show ?thesis by (simp add: stage1)
qed

lemma take_opt_drop: "take_opt cs s @ drop (length (take_opt cs s)) s = s"
  by (cases s) (auto simp: take_opt_def)

lemma take_opt_sign: "sign_text (take_opt ''+-'' s)"
  by (cases s) (auto simp: take_opt_def sign_text_def)

lemma take_opt_single: "take_opt [c] s = [] \<or> take_opt [c] s = [c]"
  by (cases s) (auto simp: take_opt_def)

lemma scan1_SomeD:
  assumes "scan1 s [] = Some g"
  obtains sg ip dot fr em es ed where
    "groups6 g = [sg, ip, dot, fr, em, es @ ed]"
    "s = sg @ ip @ dot @ fr @ em @ es @ ed"
    "sign_text sg" "ip \<noteq> []" "list_all is_digit ip"
    "dot = [] \<or> dot = ''.''" "list_all is_digit fr"
    "em = [] \<or> em = ''e''" "sign_text es" "list_all is_digit ed"
proof -
  define sg where "sg = take_opt ''+-'' s"
  define s1 where "s1 = drop (length sg) s"
  define ip where "ip = takeWhile is_digit s1"
  define s2 where "s2 = dropWhile is_digit s1"
  define dot where "dot = take_opt ''.'' s2"
  define s3 where "s3 = drop (length dot) s2"
  define fr where "fr = takeWhile is_digit s3"
  define s4 where "s4 = dropWhile is_digit s3"
  define em where "em = take_opt ''e'' s4"
  define s5 where "s5 = drop (length em) s4"
  define es where "es = take_opt ''+-'' s5"
  define ed where "ed = drop (length es) s5"
  have ip: "ip \<noteq> []"
    using assms by (auto simp: scan1_def scan2_def ip_def s1_def sg_def split: if_splits)
  have "scan6 s5 [(5, em), (4, fr), (3, dot), (2, ip), (1, sg)] = Some g"
    using assms ip
    by (simp add: scan1_def scan2_def scan3_def scan4_def scan5_def
        sg_def s1_def ip_def s2_def dot_def s3_def fr_def s4_def em_def s5_def)
  then have g: "g = [(6, s5), (5, em), (4, fr), (3, dot), (2, ip), (1, sg)]"
    and ed: "list_all is_digit ed"
    by (auto simp: scan6_def ed_def es_def split: if_splits)
  have s5: "s5 = es @ ed" by (simp add: es_def ed_def take_opt_drop)
  have s4: "s4 = em @ s5" by (simp add: em_def s5_def take_opt_drop)
  have s3: "s3 = fr @ s4" by (simp add: fr_def s4_def)
  have s2: "s2 = dot @ s3" by (simp add: dot_def s3_def take_opt_drop)
  have s1: "s1 = ip @ s2" by (simp add: ip_def s2_def)
  have s0: "s = sg @ s1" by (simp add: sg_def s1_def take_opt_drop)
  show ?thesis
  proof (rule that[of sg ip dot fr em es ed])
    show "groups6 g = [sg, ip, dot, fr, em, es @ ed]"
      by (simp add: g groups6_def group_def s5)
    show "s = sg @ ip @ dot @ fr @ em @ es @ ed"
      using s0 s1 s2 s3 s4 s5 by simp
    show "sign_text sg" "sign_text es"
      by (simp_all add: sg_def es_def take_opt_sign)
    show "ip \<noteq> []" by (rule ip)
    show "list_all is_digit ip" "list_all is_digit fr"
      by (auto simp: ip_def fr_def list_all_iff dest: set_takeWhileD)
    show "dot = [] \<or> dot = ''.''" "em = [] \<or> em = ''e''"
      using take_opt_single[of "CHR ''.''" s2] take_opt_single[of "CHR ''e''" s4]
      by (simp_all add: dot_def em_def)
    show "list_all is_digit ed" by (rule ed)
  qed
qed










lemma number_parts_SomeD:
  assumes "number_parts s = Some parts"
  obtains sg ip dot fr em es ed where
    "parts = [sg, ip, dot, fr, em, es @ ed]"
    "s = sg @ ip @ dot @ fr @ em @ es @ ed"
    "sign_text sg" "ip \<noteq> []" "list_all is_digit ip"
    "dot = [] \<or> dot = ''.''" "list_all is_digit fr"
    "em = [] \<or> em = ''e''" "sign_text es" "list_all is_digit ed"
proof -
  obtain g where g: "scan1 s [] = Some g" and p: "parts = groups6 g"
    using assms by (auto simp: number_parts_def fullmatch_number)
  show ?thesis
  proof (rule scan1_SomeD[OF g])
    fix sg ip dot fr em es ed
    assume a: "groups6 g = [sg, ip, dot, fr, em, es @ ed]"
      "s = sg @ ip @ dot @ fr @ em @ es @ ed"
      "sign_text sg" "ip \<noteq> []" "list_all is_digit ip"
      "dot = [] \<or> dot = ''.''" "list_all is_digit fr"
      "em = [] \<or> em = ''e''" "sign_text es" "list_all is_digit ed"
    show thesis
      using a(1)[folded p] a(2-) by (rule that[of sg ip dot fr em es ed])
  qed
qed

lemma number_parts_digits:
  assumes "ds \<noteq> []" and "list_all is_digit ds"
  shows "number_parts ds = Some [[], ds, [], [], [], []]"
proof -
  obtain c ds' where ds: "ds = c # ds'" using assms(1) by (cases ds) auto
  have "is_digit c" using assms(2) ds by simp
  then have "c \<notin> set ''+-''" by auto
  then have s: "take_opt ''+-'' ds = []" by (simp add: take_opt_def ds)
  have t: "takeWhile is_digit ds = ds" "dropWhile is_digit ds = []"
    using assms(2) by (simp_all add: list_all_iff)
  have n: "take_opt cs [] = []" for cs
    by (simp add: take_opt_def)
  have "scan1 ds [] = Some [(6, []), (5, []), (4, []), (3, []), (2, ds), (1, [])]"
    using assms(1)
    by (simp add: scan1_def scan2_def scan3_def scan4_def scan5_def scan6_def s t n)
  then show ?thesis
    by (simp add: number_parts_def fullmatch_number groups6_def group_def)
qed

section \<open>Integers and displayed digits\<close>

lemma py_int_digits:
  assumes "ds \<noteq> []" "list_all is_digit ds"
  shows "py_int ds = Inr (int (nat_of_digits ds))"
proof -
  obtain c ds' where ds: "ds = c # ds'" using assms(1) by (cases ds) auto
  then have "is_digit c" using assms(2) by simp
  then have "c \<noteq> CHR ''+''" "c \<noteq> CHR ''-''" by auto
  then show ?thesis
    using assms(2) by (simp add: py_int_def ds)
qed




lemma nat_of_digits_zeros:
  "nat_of_digits (ds @ replicate n CHR ''0'') = nat_of_digits ds * 10 ^ n"
proof (induction n)
  case 0
  show ?case by simp
next
  case (Suc n)
  have "replicate (Suc n) CHR ''0'' = replicate n CHR ''0'' @ ''0''"
    by (simp add: replicate_append_same)
  then have "nat_of_digits (ds @ replicate (Suc n) CHR ''0'')
        = 10 * nat_of_digits (ds @ replicate n CHR ''0'')"
    by (simp add: nat_of_digits_def digit_val_def del: replicate.simps)
  then show ?case by (simp add: Suc.IH)
qed

lemma py_str_digits: "py_str n \<noteq> [] \<and> list_all is_digit (py_str n)"
proof (induction n rule: py_str.induct)
  case (1 n)
  have d: "is_digit (digit_chars ! k)" if "k < 10" for k
  proof -
    have "k < length digit_chars" using that by (simp add: digit_chars_def)
    then show ?thesis unfolding is_digit_def by (rule nth_mem)
  qed
  show ?case
  proof (cases "n < 10")
    case True
    then show ?thesis by (subst py_str.simps, subst (2) py_str.simps) (simp add: d)
  next
    case False
    then show ?thesis
      using 1 by (subst py_str.simps, subst (2) py_str.simps) (simp add: d)
  qed
qed


lemma shown_digits_zero:
  assumes "ip \<noteq> []" "list_all is_digit ip" "list_all is_digit fr"
    and "up = [sg, ip, dot, fr, em, ex]" and "nat_of_digits (ip @ fr) = 0"
  shows "shown_digits vp up = Inr ''0''"
  using assms by (simp add: shown_digits_def py_int_digits)


lemma shown_digits_round:
  assumes "ip \<noteq> []" "list_all is_digit ip" "list_all is_digit fr"
    and "up = [sg, ip, dot, fr, em, ex]" and "nat_of_digits (ip @ fr) = n" and "n \<noteq> 0"
    and "exp_of vp = Inr val_exp" "exp_of up = Inr unc_exp"
    and "nat (- discrepancy val_exp unc_exp vp up) = k" and "0 < k"
  shows "shown_digits vp up =
         (case py_ceil (float_of_decimal n k) of Inl err \<Rightarrow> Inl err | Inr c \<Rightarrow> Inr (py_str c))"
proof -
  have "discrepancy val_exp unc_exp vp up < 0"
    using assms(9,10) by linarith
  then show ?thesis
    using assms(1-3,5-9) unfolding assms(4)
    by (simp add: shown_digits_def py_int_digits Let_def)
qed

lemma shown_digits_are_digits:
  assumes "ip \<noteq> []" "list_all is_digit ip" "list_all is_digit fr"
    and "up = [sg, ip, dot, fr, em, ex]" and "shown_digits vp up = Inr d"
  shows "d \<noteq> [] \<and> list_all is_digit d"
proof -
  have z: "is_digit CHR ''0''" by (simp add: is_digit_def digit_chars_def)
  show ?thesis
    using assms(1-3,5) py_str_digits unfolding assms(4)
    by (auto simp: shown_digits_def py_int_digits Let_def z list_all_iff
        split: sum.splits if_splits)
qed

section \<open>The float conversion\<close>

text \<open>
  The binary exponent computed by \<open>float_of_decimal\<close> brackets the quotient:
  \<open>2 ^ b \<le> n / d < 2 ^ (b + 1)\<close>.  Hence the conversion overflows from \<open>2 ^ 1024\<close> on, and
  for \<open>n < 2 ^ 53\<close> and \<open>k \<le> 323\<close> rounding to the nearest float cannot move \<open>n / 10 ^ k\<close>
  onto or across an integer, so that \<^verbatim>\<open>ceil\<close> of the float is the exact ceiling.
\<close>

lemma bitlen_bounds:
  "0 < n \<Longrightarrow> 2 ^ (bitlen n - 1) \<le> n \<and> n < 2 ^ bitlen n"
proof (induction n rule: bitlen.induct)
  case (1 n)
  have bl: "bitlen n = Suc (bitlen (n div 2))"
    using 1(2) by (subst bitlen.simps) simp
  show ?case
  proof (cases "n div 2 = 0")
    case True
    then have "n = 1" using 1(2) by presburger
    then show ?thesis by (simp add: bitlen.simps)
  next
    case False
    then have ih: "2 ^ (bitlen (n div 2) - 1) \<le> n div 2" "n div 2 < 2 ^ bitlen (n div 2)"
      using 1 by simp_all
    have pos: "0 < bitlen (n div 2)"
      using False by (subst bitlen.simps) simp
    then have p: "(2::nat) ^ bitlen (n div 2) = 2 * 2 ^ (bitlen (n div 2) - 1)"
      by (cases "bitlen (n div 2)") simp_all
    have "2 ^ bitlen (n div 2) \<le> 2 * (n div 2)"
      using ih(1) p by simp
    also have "\<dots> \<le> n" by simp
    finally have lo: "2 ^ (bitlen n - 1) \<le> n" by (simp add: bl)
    have "n < 2 * (n div 2) + 2" by presburger
    also have "\<dots> \<le> 2 * 2 ^ bitlen (n div 2)"
      using ih(2) by simp
    finally have "n < 2 ^ bitlen n" by (simp add: bl)
    with lo show ?thesis by simp
  qed
qed

lemma exact_ceiling_bounds:
  assumes "0 < n"
  shows "0 < exact_ceiling n k \<and> (exact_ceiling n k - 1) * 10 ^ k < n \<and> n \<le> exact_ceiling n k * 10 ^ k"
proof -
  define d :: nat where "d = 10 ^ k"
  define c where "c = (n + d - 1) div d"
  have d: "0 < d" by (simp add: d_def)
  have c: "c = exact_ceiling n k" by (simp add: c_def exact_ceiling_def d_def)
  have e: "n + d - 1 = c * d + (n + d - 1) mod d"
    by (simp add: c_def)
  have m: "(n + d - 1) mod d < d" using d by simp
  have "d \<le> n + d - 1" using assms by simp
  then have cpos: "0 < c" using d by (simp add: c_def div_greater_zero_iff)
  have up: "n \<le> c * d" using e m by linarith
  have "(c - 1) * d = c * d - d" by (simp add: diff_mult_distrib)
  then have lo: "(c - 1) * d < n" using e m cpos d assms by linarith
  show ?thesis using cpos up lo by (simp add: c[symmetric] d_def)
qed

lemma round_then_ceil:
  fixes n d E c :: nat
  assumes "0 < d" and "0 < E" and "d < 2 * E"
    and "0 < c" and "(c - 1) * d < n" and "n \<le> c * d"
  shows "(round_half_even (n * E) d + E - 1) div E = c"
proof -
  define a where "a = n * E"
  define q where "q = a div d"
  define r where "r = a mod d"
  define m where "m = round_half_even a d"
  have aqr: "a = q * d + r" and rd: "r < d"
    using assms(1) by (simp_all add: q_def r_def)
  have m_cases: "m = q \<or> m = q + 1" and m_ge: "q \<le> m"
    and m_up: "d < 2 * r \<Longrightarrow> m = q + 1" and m_exact: "r = 0 \<Longrightarrow> m = q"
    using assms(1) by (auto simp: m_def round_half_even_def Let_def q_def r_def)
  have a_up: "a \<le> (c * E) * d"
    using assms(6) by (simp add: a_def mult.assoc mult.commute mult_le_mono1)
  have "(c - 1) * d + 1 \<le> n" using assms(5) by simp
  then have "((c - 1) * d + 1) * E \<le> n * E" by (rule mult_le_mono1)
  then have a_lo: "((c - 1) * E) * d + E \<le> a"
    by (simp add: a_def algebra_simps)
  have upper: "m \<le> c * E"
  proof (cases "a = (c * E) * d")
    case True
    then have "q = c * E" "r = 0" using assms(1) by (simp_all add: q_def r_def)
    then show ?thesis using m_exact by simp
  next
    case False
    then have "a < (c * E) * d" using a_up by simp
    then have "q < c * E" using assms(1) by (simp add: q_def div_less_iff_less_mult)
    then show ?thesis using m_cases by auto
  qed
  have q_lo: "(c - 1) * E \<le> q"
  proof -
    have "((c - 1) * E) * d \<le> a" using a_lo by simp
    then show ?thesis
      using assms(1) by (simp add: q_def less_eq_div_iff_mult_less_eq)
  qed
  have lower: "(c - 1) * E < m"
  proof (cases "q = (c - 1) * E")
    case True
    then have "E \<le> r" using a_lo aqr by simp
    then have "d < 2 * r" using assms(3) by simp
    then show ?thesis using m_up True by simp
  next
    case False
    then show ?thesis using q_lo m_ge by simp
  qed
  have "c * E = (c - 1) * E + E"
    using assms(4) by (cases c) simp_all
  then have "c * E \<le> m + E - 1" "m + E - 1 < c * E + E"
    using lower upper assms(2) by simp_all
  then have "(m + E - 1) div E = c"
    using assms(2) by (simp add: div_nat_eqI mult.commute)
  then show ?thesis by (simp add: m_def a_def)
qed

lemma binary_exponent:
  fixes n d :: nat
  assumes "0 < n" and "0 < d"
  defines "t \<equiv> int (bitlen n) - int (bitlen d)"
  defines "b \<equiv> (if (if 0 \<le> t then d * 2 ^ nat t \<le> n else d \<le> n * 2 ^ nat (- t)) then t else t - 1)"
  shows "if 0 \<le> b then d * 2 ^ nat b \<le> n else d \<le> n * 2 ^ nat (- b)"
proof (cases "if 0 \<le> t then d * 2 ^ nat t \<le> n else d \<le> n * 2 ^ nat (- t)")
  case True
  then have "b = t" by (simp add: b_def)
  then show ?thesis using True by simp
next
  case False
  then have b: "b = t - 1" by (simp add: b_def)
  have bn: "2 ^ (bitlen n - 1) \<le> n" and bd: "d < 2 ^ bitlen d"
    using bitlen_bounds[OF assms(1)] bitlen_bounds[OF assms(2)] by simp_all
  have pn: "0 < bitlen n" using assms(1) by (subst bitlen.simps) simp
  show ?thesis
  proof (cases "0 \<le> b")
    case True
    then have t1: "bitlen d + 1 \<le> bitlen n" by (simp add: b t_def)
    then have nb: "nat b = bitlen n - 1 - bitlen d" by (simp add: b t_def)
    have "d * 2 ^ nat b \<le> 2 ^ bitlen d * 2 ^ nat b"
      using bd by (simp add: mult_le_mono1)
    also have "\<dots> = 2 ^ (bitlen n - 1)"
      using t1 by (simp add: nb power_add[symmetric])
    also have "\<dots> \<le> n" by (rule bn)
    finally show ?thesis using True by simp
  next
    case False
    then have t0: "bitlen n \<le> bitlen d" by (simp add: b t_def)
    then have nb: "nat (- b) = bitlen d - (bitlen n - 1)"
      using pn by (simp add: b t_def)
    have "d \<le> 2 ^ bitlen d" using bd by simp
    also have "\<dots> = 2 ^ (bitlen n - 1) * 2 ^ nat (- b)"
      using t0 pn by (simp add: nb power_add[symmetric])
    also have "\<dots> \<le> n * 2 ^ nat (- b)"
      using bn by (simp add: mult_le_mono1)
    finally show ?thesis using False by simp
  qed
qed

lemma binary_exponent_upper:
  fixes n d :: nat
  assumes "0 < n" and "0 < d"
  defines "t \<equiv> int (bitlen n) - int (bitlen d)"
  defines "b \<equiv> (if (if 0 \<le> t then d * 2 ^ nat t \<le> n else d \<le> n * 2 ^ nat (- t)) then t else t - 1)"
  shows "if 0 \<le> b + 1 then n < d * 2 ^ nat (b + 1) else n * 2 ^ nat (- (b + 1)) < d"
proof (cases "if 0 \<le> t then d * 2 ^ nat t \<le> n else d \<le> n * 2 ^ nat (- t)")
  case False
  then have "b + 1 = t" by (simp add: b_def)
  then show ?thesis using False by (simp split: if_splits)
next
  case True
  then have b: "b = t" by (simp add: b_def)
  have bn: "n < 2 ^ bitlen n" and bd: "2 ^ (bitlen d - 1) \<le> d"
    using bitlen_bounds[OF assms(1)] bitlen_bounds[OF assms(2)] by simp_all
  have pd: "0 < bitlen d" using assms(2) by (subst bitlen.simps) simp
  show ?thesis
  proof (cases "0 \<le> b + 1")
    case True
    then have le: "bitlen d \<le> bitlen n + 1" by (simp add: b t_def)
    then have nb: "nat (b + 1) = bitlen n + 1 - bitlen d"
      by (simp add: b t_def)
    have "n < 2 ^ bitlen n" by (rule bn)
    also have "\<dots> = 2 ^ (bitlen d - 1) * 2 ^ nat (b + 1)"
      using le pd by (simp add: nb power_add[symmetric])
    also have "\<dots> \<le> d * 2 ^ nat (b + 1)"
      using bd by (rule mult_le_mono1)
    finally show ?thesis using True by simp
  next
    case False
    then have lt: "bitlen n + 1 < bitlen d" by (simp add: b t_def)
    then have nb: "nat (- (b + 1)) = bitlen d - 1 - bitlen n"
      by (simp add: b t_def)
    have "n * 2 ^ nat (- (b + 1)) < 2 ^ bitlen n * 2 ^ nat (- (b + 1))"
      using bn by simp
    also have "\<dots> = 2 ^ (bitlen n + (bitlen d - 1 - bitlen n))"
      by (simp only: nb power_add)
    also have "\<dots> = 2 ^ (bitlen d - 1)"
      using lt by simp
    also have "\<dots> \<le> d" by (rule bd)
    finally show ?thesis using False by simp
  qed
qed

lemma pow10_323: "(10::nat) ^ 323 < 2 * 2 ^ 1074"
  by simp

lemma ceil_float_exact:
  assumes "0 < n" and "n < 2 ^ 53" and "0 < k" and "k \<le> 323"
  shows "py_ceil (float_of_decimal n k) = Inr (exact_ceiling n k)"
proof -
  define d :: nat where "d = 10 ^ k"
  define t where "t = int (bitlen n) - int (bitlen d)"
  define b where "b = (if (if 0 \<le> t then d * 2 ^ nat t \<le> n else d \<le> n * 2 ^ nat (- t)) then t else t - 1)"
  define e where "e = max (b - 52) (- 1074)"
  define E :: nat where "E = 2 ^ nat (- e)"
  have d0: "0 < d" by (simp add: d_def)
  have d2: "2 \<le> d"
  proof -
    have "(10::nat) ^ 1 \<le> 10 ^ k" using assms(3) by (intro power_increasing) simp_all
    then show ?thesis by (simp add: d_def)
  qed
  have dmax: "d \<le> 10 ^ 323"
    unfolding d_def using assms(4) by (intro power_increasing) simp_all
  have bprop: "if 0 \<le> b then d * 2 ^ nat b \<le> n else d \<le> n * 2 ^ nat (- b)"
    unfolding b_def t_def by (rule binary_exponent[OF assms(1) d0])
  have b52: "b < 52"
  proof (rule ccontr)
    assume "\<not> b < 52"
    then have b: "52 \<le> b" by simp
    then have "d * 2 ^ nat b \<le> n" using bprop by simp
    moreover have "(2::nat) ^ 52 \<le> 2 ^ nat b"
      using b by (intro power_increasing) simp_all
    moreover have "2 * 2 ^ nat b \<le> d * 2 ^ nat b"
      using d2 by (rule mult_le_mono1)
    ultimately have "2 * (2::nat) ^ 52 \<le> n" by linarith
    then show False using assms(2) by simp
  qed
  then have e_neg: "e < 0" by (simp add: e_def)
  have dE: "d < 2 * E"
  proof (cases "b - 52 \<le> - 1074")
    case True
    then have "e = - 1074" by (simp add: e_def)
    then have "E = 2 ^ 1074" by (simp add: E_def)
    then show ?thesis using dmax pow10_323 by linarith
  next
    case False
    then have e: "e = b - 52" by (simp add: e_def)
    show ?thesis
    proof (cases "0 \<le> b")
      case True
      then have le: "d * 2 ^ nat b \<le> n" using bprop by simp
      have nb: "nat b \<le> 52" using b52 by simp
      have E: "E = 2 ^ (52 - nat b)"
        using True b52 by (simp add: E_def e nat_diff_distrib)
      have "d * 2 ^ nat b < 2 ^ 53" using le assms(2) by simp
      also have "\<dots> = (2 * 2 ^ (52 - nat b)) * 2 ^ nat b"
        using nb by (simp add: power_add[symmetric])
      finally have "d < 2 * 2 ^ (52 - nat b)"
        by (simp only: mult_less_cancel2)
      then show ?thesis by (simp add: E)
    next
      case False
      then have le: "d \<le> n * 2 ^ nat (- b)" using bprop by simp
      have "nat (- e) = 52 + nat (- b)"
        using False by (simp add: e)
      then have E: "E = 2 ^ 52 * 2 ^ nat (- b)"
        by (simp add: E_def power_add)
      have "n * 2 ^ nat (- b) < 2 ^ 53 * 2 ^ nat (- b)"
        using assms(2) by simp
      with le have "d < 2 ^ 53 * 2 ^ nat (- b)"
        by (rule le_less_trans)
      then show ?thesis by (simp add: E)
    qed
  qed
  have fl: "float_of_decimal n k = Finite (round_half_even (n * E) d) e"
    using assms(1) e_neg
    unfolding float_of_decimal_def Let_def d_def[symmetric] t_def[symmetric] b_def[symmetric]
      e_def[symmetric] E_def
    by simp
  have cb: "0 < exact_ceiling n k" "(exact_ceiling n k - 1) * d < n" "n \<le> exact_ceiling n k * d"
    using exact_ceiling_bounds[OF assms(1), of k] by (simp_all add: d_def)
  have E0: "0 < E" by (simp add: E_def)
  have "(round_half_even (n * E) d + E - 1) div E = exact_ceiling n k"
    by (rule round_then_ceil[OF d0 E0 dE cb])
  then show ?thesis
    using e_neg by (simp add: fl py_ceil_def E_def)
qed

lemma float_Infinity:
  assumes "10 ^ k * 2 ^ 1024 \<le> n"
  shows "float_of_decimal n k = Infinity"
proof -
  define d :: nat where "d = 10 ^ k"
  define t where "t = int (bitlen n) - int (bitlen d)"
  define b where "b = (if (if 0 \<le> t then d * 2 ^ nat t \<le> n else d \<le> n * 2 ^ nat (- t)) then t else t - 1)"
  define e where "e = max (b - 52) (- 1074)"
  have d0: "0 < d" by (simp add: d_def)
  have le: "d * 2 ^ 1024 \<le> n" using assms by (simp add: d_def)
  then have n0: "0 < n" using d0 by (cases n) auto
  have up: "if 0 \<le> b + 1 then n < d * 2 ^ nat (b + 1) else n * 2 ^ nat (- (b + 1)) < d"
    unfolding b_def t_def by (rule binary_exponent_upper[OF n0 d0])
  have "1024 \<le> b"
  proof (rule ccontr)
    assume "\<not> 1024 \<le> b"
    then have b: "b + 1 \<le> 1024" by simp
    show False
    proof (cases "0 \<le> b + 1")
      case True
      then have "n < d * 2 ^ nat (b + 1)" using up by simp
      moreover have "(2::nat) ^ nat (b + 1) \<le> 2 ^ 1024"
        using b by (intro power_increasing) simp_all
      then have "d * 2 ^ nat (b + 1) \<le> d * 2 ^ 1024" by (rule mult_le_mono2)
      ultimately show False using le by linarith
    next
      case False
      then have "n * 2 ^ nat (- (b + 1)) < d" using up by simp
      moreover have "n * 1 \<le> n * 2 ^ nat (- (b + 1))"
        by (intro mult_le_mono2) simp
      moreover have "d * 1 \<le> d * 2 ^ 1024"
        by (intro mult_le_mono2) simp
      ultimately show False using le by linarith
    qed
  qed
  then have "971 < e" by (simp add: e_def)
  then show ?thesis
    using n0
    unfolding float_of_decimal_def Let_def d_def[symmetric] t_def[symmetric] b_def[symmetric]
      e_def[symmetric]
    by simp
qed

section \<open>The unit pattern on tokens\<close>

lemma many_greedy_Some:
  assumes "set ds \<subseteq> set cs" and "r = [] \<or> hd r \<notin> set cs"
    and "k (last_char p ds, r, g) = Some x"
  shows "many cs p (ds @ r) g k = Some x"
proof -
  have "many cs p (ds @ r) g k = k (last_char p ds, r, g)"
    by (rule many_greedy[OF assms(1,2)]) (simp add: assms(3))
  then show ?thesis by (simp add: assms(3))
qed

lemma grp_many1:
  assumes "ds \<noteq> []" and "set ds \<subseteq> set cs" and "r = [] \<or> hd r \<notin> set cs"
    and "k (Some (last ds), r, (n, ds) # g) = Some x"
  shows "rx_match (Grp n (Many1 cs)) (p, ds @ r, g) k = Some x"
proof -
  define s where "s = ds @ r"
  define k' :: "mstate \<Rightarrow> 'a option"
    where "k' = (\<lambda>st'. case st' of (p', s', g') \<Rightarrow> k (p', s', (n, take (length s - length s') s) # g'))"
  obtain d ds' where ds: "ds = d # ds'" using assms(1) by (cases ds) auto
  have s: "s = d # (ds' @ r)" by (simp add: s_def ds)
  have d: "d \<in> set cs" "set ds' \<subseteq> set cs" using assms(2) ds by auto
  have t: "take (length s - length r) s = ds" by (simp add: s_def)
  have lc: "last_char (Some d) ds' = Some (last ds)" by (simp add: last_char_def ds)
  have "k' (last_char (Some d) ds', r, g) = Some x"
    unfolding lc k'_def prod.case t by (rule assms(4))
  then have m: "many cs (Some d) (ds' @ r) g k' = Some x"
    by (rule many_greedy_Some[OF d(2) assms(3)])
  have "rx_match (Grp n (Many1 cs)) (p, s, g) k = rx_match (Many1 cs) (p, s, g) k'"
    by (simp add: k'_def)
  also have "\<dots> = many cs (Some d) (ds' @ r) g k'"
    using d(1) by (simp add: s)
  finally show ?thesis using m by (simp add: s_def)
qed

lemma grp_opt_taken:
  assumes "c \<in> set cs" and "k (Some c, s, (n, [c]) # g) = Some x"
  shows "rx_match (Grp n (Opt (Cls cs))) (p, c # s, g) k = Some x"
  using assms by simp

lemma grp_opt_skipped:
  assumes "s = [] \<or> hd s \<notin> set cs"
  shows "rx_match (Grp n (Opt (Cls cs))) (p, s, g) k = k (p, s, (n, []) # g)"
  using assms by (cases s) auto

lemma unit_regex_parts:
  "unit_regex = Seq WordB (Seq (Grp 1 (Many1 letter_chars)) (Seq (Opt exp_part) WordB))"
  by (simp add: unit_regex_def exp_part_def)

lemma digit_is_word: "c \<in> set digit_chars \<Longrightarrow> is_word (Some c)"
  by (simp add: is_word_def word_chars_def)

lemma letter_is_word: "c \<in> set letter_chars \<Longrightarrow> is_word (Some c)"
  by (simp add: is_word_def word_chars_def)

lemma wordb_end: "is_word (Some c) \<Longrightarrow> rx_match WordB (Some c, [], g) Some = Some (Some c, [], g)"
  by (simp add: next_char_def is_word_def)

lemma exp_part_match:
  assumes "ds \<noteq> []" and "set ds \<subseteq> set digit_chars" and "sg = [] \<or> sg = ''-''"
    and "k (Some (last ds), [], (3, ds) # (2, sg) # g) = Some x"
  shows "rx_match exp_part (p, ''^'' @ sg @ ds, g) k = Some x"
proof -
  define k3 :: "mstate \<Rightarrow> 'a option"
    where "k3 = (\<lambda>st'. rx_match (Grp 3 (Many1 digit_chars)) st' k)"
  have g3: "k3 (q, ds, (2, sg) # g) = Some x" for q
  proof -
    have "rx_match (Grp 3 (Many1 digit_chars)) (q, ds @ [], (2, sg) # g) k = Some x"
      by (rule grp_many1) (use assms in simp_all)
    then show ?thesis by (simp add: k3_def del: rx_match.simps)
  qed
  have "rx_match exp_part (p, ''^'' @ sg @ ds, g) k
        = rx_match (Grp 2 (Opt (Cls ''-''))) (Some CHR ''^'', sg @ ds, g) k3"
    by (simp add: exp_part_def k3_def del: rx_match.simps(3,5,6))
  also have "\<dots> = Some x"
  proof (cases "sg = []")
    case True
    have "hd ds \<in> set digit_chars" using assms(1,2) by (cases ds) auto
    then have "hd ds \<notin> set ''-''" by (auto simp: digit_chars_def)
    then have "rx_match (Grp 2 (Opt (Cls ''-''))) (Some CHR ''^'', ds, g) k3
               = k3 (Some CHR ''^'', ds, (2, []) # g)"
      by (intro grp_opt_skipped) simp
    then show ?thesis using True g3 by simp
  next
    case False
    then have sg: "sg = ''-''" using assms(3) by simp
    have "rx_match (Grp 2 (Opt (Cls ''-''))) (Some CHR ''^'', CHR ''-'' # ds, g) k3 = Some x"
      by (rule grp_opt_taken) (use g3 sg in simp_all)
    then show ?thesis by (simp add: sg)
  qed
  finally show ?thesis .
qed

lemma exp_part_Nil: "rx_match exp_part (p, [], g) k = None"
  by (simp add: exp_part_def)

lemma after_base_exp:
  assumes "ds \<noteq> []" and "set ds \<subseteq> set digit_chars" and "sg = [] \<or> sg = ''-''"
  shows "rx_match (Seq (Opt exp_part) WordB) (p, ''^'' @ sg @ ds, g) Some
         = Some (Some (last ds), [], (3, ds) # (2, sg) # g)"
proof -
  have "last ds \<in> set digit_chars" using assms(1,2) last_in_set by blast
  then have "rx_match WordB (Some (last ds), [], (3, ds) # (2, sg) # g) Some
             = Some (Some (last ds), [], (3, ds) # (2, sg) # g)"
    by (intro wordb_end digit_is_word)
  then have "rx_match exp_part (p, ''^'' @ sg @ ds, g) (\<lambda>st. rx_match WordB st Some)
             = Some (Some (last ds), [], (3, ds) # (2, sg) # g)"
    by (intro exp_part_match[OF assms])
  then show ?thesis
    by (simp del: rx_match.simps(7))
qed

lemma after_base_Nil:
  assumes "is_word (Some c)"
  shows "rx_match (Seq (Opt exp_part) WordB) (Some c, [], g) Some = Some (Some c, [], g)"
  using wordb_end[OF assms] by (simp add: exp_part_Nil del: rx_match.simps(7))

lemma unit_match_base:
  assumes "base \<noteq> []" and "set base \<subseteq> set letter_chars" and "\<not> is_word p"
    and "r = [] \<or> hd r \<notin> set letter_chars"
    and "rx_match (Seq (Opt exp_part) WordB) (Some (last base), r, [(1, base)]) Some = Some x"
  shows "rx_match unit_regex (p, base @ r, []) Some = Some x"
proof -
  have "hd base \<in> set letter_chars" using assms(1,2) by (cases base) auto
  then have "is_word (next_char (base @ r))"
    using assms(1) letter_is_word[of "hd base"] by (cases base) (auto simp: next_char_def)
  then have w: "is_word p \<noteq> is_word (next_char (base @ r))"
    using assms(3) by simp
  have "rx_match unit_regex (p, base @ r, []) Some
        = rx_match WordB (p, base @ r, [])
            (\<lambda>st. rx_match (Seq (Grp 1 (Many1 letter_chars)) (Seq (Opt exp_part) WordB)) st Some)"
    by (simp only: unit_regex_parts rx_match.simps(2))
  also have "\<dots> = rx_match (Seq (Grp 1 (Many1 letter_chars)) (Seq (Opt exp_part) WordB))
                      (p, base @ r, []) Some"
    using w by (simp del: rx_match.simps(2,3,5,6))
  also have "\<dots> = rx_match (Grp 1 (Many1 letter_chars)) (p, base @ r, [])
                 (\<lambda>st. rx_match (Seq (Opt exp_part) WordB) st Some)"
    by (simp only: rx_match.simps(2))
  also have "\<dots> = Some x"
    by (rule grp_many1[where k = "\<lambda>st. rx_match (Seq (Opt exp_part) WordB) st Some",
          OF assms(1,2,4)]) (rule assms(5))
  finally show ?thesis .
qed

lemma unit_match_Nil: "rx_match unit_regex (p, [], []) Some = None"
  by (simp add: unit_regex_parts)

lemma unit_match_nonletter:
  "c \<notin> set letter_chars \<Longrightarrow> rx_match unit_regex (p, c # s, []) Some = None"
  by (simp add: unit_regex_parts)

lemma findall_Nil: "findall_from unit_regex p [] = []"
  by (subst findall_from.simps) (simp add: unit_match_Nil del: rx_match.simps)

lemma findall_single:
  assumes "rx_match unit_regex (p, s, []) Some = Some (p', [], g)" and "s \<noteq> []"
  shows "findall_from unit_regex p s = [g]"
  using assms by (subst findall_from.simps) (simp add: findall_Nil del: rx_match.simps)

lemma findall_nonletters:
  "set s \<inter> set letter_chars = {} \<Longrightarrow> findall_from unit_regex p s = []"
proof (induction s arbitrary: p)
  case Nil
  show ?case by (rule findall_Nil)
next
  case (Cons c s)
  then have c: "c \<notin> set letter_chars" and s: "set s \<inter> set letter_chars = {}"
    by auto
  show ?case
    by (subst findall_from.simps)
       (simp add: unit_match_nonletter[OF c] Cons.IH[OF s] del: rx_match.simps)
qed

lemma tokens_bare:
  assumes "base \<noteq> []" and "set base \<subseteq> set letter_chars"
  shows "findall3 unit_regex base = [(base, [], [])]"
proof -
  have l: "is_word (Some (last base))"
    using assms last_in_set[OF assms(1)] by (intro letter_is_word) auto
  have "rx_match unit_regex (None, base @ [], []) Some = Some (Some (last base), [], [(1, base)])"
    by (rule unit_match_base[OF assms]) (simp_all add: is_word_def after_base_Nil[OF l] del: rx_match.simps)
  then have "findall_from unit_regex None base = [[(1, base)]]"
    using assms(1) by (intro findall_single) simp_all
  then show ?thesis
    by (simp add: findall3_def group_def)
qed

lemma tokens_exp:
  assumes "base \<noteq> []" and "set base \<subseteq> set letter_chars"
    and "ds \<noteq> []" and "set ds \<subseteq> set digit_chars" and "sg = [] \<or> sg = ''-''"
  shows "findall3 unit_regex (base @ ''^'' @ sg @ ds) = [(base, sg, ds)]"
proof -
  have "hd (''^'' @ sg @ ds) \<notin> set letter_chars"
    by (simp add: letter_chars_def)
  then have "rx_match unit_regex (None, base @ ''^'' @ sg @ ds, []) Some
        = Some (Some (last ds), [], [(3, ds), (2, sg), (1, base)])"
    by (intro unit_match_base[OF assms(1,2)])
       (simp_all only: after_base_exp[OF assms(3,4,5)] is_word_def option.case simp_thms)
  then have "findall_from unit_regex None (base @ ''^'' @ sg @ ds) = [[(3, ds), (2, sg), (1, base)]]"
    by (intro findall_single) simp_all
  then show ?thesis
    by (simp add: findall3_def group_def)
qed


lemma loop_KeyError:
  assumes "\<forall>t\<in>set pre. map_of unit_map (fst t) \<noteq> None" and "map_of unit_map b = None"
  shows "format_unit_loop acc (pre @ (b, sg, e) # post) = Inl (KeyError b)"
  using assms(1)
proof (induction pre arbitrary: acc)
  case Nil
  show ?case by (simp add: assms(2) Let_def)
next
  case (Cons t pre)
  obtain b' sg' e' where t: "t = (b', sg', e')" by (cases t) auto
  then obtain m where "map_of unit_map b' = Some m" using Cons.prems by auto
  then show ?case
    using Cons by (simp add: t Let_def)
qed

lemma loop_total:
  "(\<exists>out. format_unit_loop acc ts = Inr out)
   \<or> (\<exists>b sg e. (b, sg, e) \<in> set ts \<and> map_of unit_map b = None
                \<and> format_unit_loop acc ts = Inl (KeyError b))"
proof (induction ts arbitrary: acc)
  case Nil
  show ?case by simp
next
  case (Cons t ts)
  obtain b sg e where t: "t = (b, sg, e)" by (cases t) auto
  show ?case
  proof (cases "map_of unit_map b")
    case None
    then show ?thesis by (auto simp: t Let_def)
  next
    case (Some m)
    then obtain acc' where "format_unit_loop acc (t # ts) = format_unit_loop acc' ts"
      by (simp add: t Let_def)
    then show ?thesis
      using Cons.IH[of acc'] by auto
  qed
qed











section \<open>Evaluating the matcher and the arithmetic\<close>

lemmas engine_eval = fullmatch_def number_regex_def unit_regex_def digit_chars_def letter_chars_def
  word_chars_def is_word_def next_char_def group_def groups6_def number_parts_def

lemmas number_eval = format_uncertain_value_def shown_digits_def exp_of_def discrepancy_def
  py_int_def is_digit_def nat_of_digits_def digit_val_def digit_chars_def Let_def

lemma float_3_2: "py_ceil (float_of_decimal 3 2) = Inr 1"
proof -
  have a: "bitlen 3 = 2" "bitlen (10 ^ 2) = 7"
    by (simp_all add: bitlen.simps)
  have "float_of_decimal 3 2 = Finite 8646911284551352 (- 58)"
    unfolding float_of_decimal_def Let_def a
    by (simp add: round_half_even_def Let_def)
  then show ?thesis
    by (simp add: py_ceil_def)
qed

lemma float_17_digits: "py_ceil (float_of_decimal 10000000000000001 16) = Inr 1"
proof -
  have a: "bitlen 10000000000000001 = 54" "bitlen (10 ^ 16) = 54"
    by (simp_all add: bitlen.simps)
  have "float_of_decimal 10000000000000001 16 = Finite 4503599627370496 (- 52)"
    unfolding float_of_decimal_def Let_def a
    by (simp add: round_half_even_def Let_def)
  then show ?thesis
    by (simp add: py_ceil_def)
qed

lemma float_overflow: "py_ceil (float_of_decimal (10 ^ 310) 1) = Inl OverflowError"
proof -
  have "float_of_decimal (10 ^ 310) 1 = Infinity"
    by (rule float_Infinity) simp
  then show ?thesis
    by (simp only: py_ceil_def pyfloat.case)
qed

lemma parts_0: "number_parts ''0'' = Some [[], ''0'', [], [], [], []]"
  by (simp add: engine_eval)

lemma parts_1: "number_parts ''1'' = Some [[], ''1'', [], [], [], []]"
  by (simp add: engine_eval)



lemma parts_1_234: "number_parts ''1.234'' = Some [[], ''1'', ''.'', ''234'', [], []]"
  by (simp add: engine_eval)

lemma parts_0_006: "number_parts ''0.006'' = Some [[], ''0'', ''.'', ''006'', [], []]"
  by (simp add: engine_eval)

lemma parts_2_0: "number_parts ''2.0'' = Some [[], ''2'', ''.'', ''0'', [], []]"
  by (simp add: engine_eval)

lemma parts_0_003: "number_parts ''0.003'' = Some [[], ''0'', ''.'', ''003'', [], []]"
  by (simp add: engine_eval)

lemma parts_9_81: "number_parts ''9.81'' = Some [[], ''9'', ''.'', ''81'', [], []]"
  by (simp add: engine_eval)


lemma parts_1e_plus: "number_parts ''1e+'' = Some [[], ''1'', [], [], ''e'', ''+'']"
  by (simp add: engine_eval)

lemma parts_1e1: "number_parts ''1e1'' = Some [[], ''1'', [], [], ''e'', ''1'']"
  by (simp add: engine_eval)

lemma parts_310_zeros:
  "number_parts (CHR ''1'' # replicate 310 CHR ''0'') = Some [[], CHR ''1'' # replicate 310 CHR ''0'', [], [], [], []]"
  by (rule number_parts_digits) (simp_all add: list_all_iff is_digit_def digit_chars_def)

lemma parts_17_digits:
  "number_parts ''1.0000000000000001'' = Some [[], ''1'', ''.'', ''0000000000000001'', [], []]"
  by (simp add: engine_eval)

lemma parts_m1_5em3: "number_parts ''-1.5e-3'' = Some [''-'', ''1'', ''.'', ''5'', ''e'', ''-3'']"
  by (simp add: engine_eval)

lemma parts_0_2em3: "number_parts ''0.2e-3'' = Some [[], ''0'', ''.'', ''2'', ''e'', ''-3'']"
  by (simp add: engine_eval)




lemma tokens_xyz: "findall3 unit_regex ''xyz'' = [] @ (''xyz'', [], []) # []"
  using tokens_bare[of "''xyz''"] by (simp add: letter_chars_def)

lemma tokens_kg_xyz_m:
  "findall3 unit_regex ''kg xyz m'' = [(''kg'', [], [])] @ (''xyz'', [], []) # [(''m'', [], [])]"
  by (simp add: engine_eval findall3_def findall_from.simps)

lemma fuv_1_234: "format_uncertain_value ''1.234'' ''0.006'' = Inr ''1.234(0006)''"
  by (simp add: number_eval parts_1_234 parts_0_006)

lemma fuv_2_0: "format_uncertain_value ''2.0'' ''0.003'' = Inr ''2.0(1)''"
  by (simp add: number_eval parts_2_0 parts_0_003 float_3_2 py_str.simps)

lemma fuv_17_digits: "format_uncertain_value ''1'' ''1.0000000000000001'' = Inr ''1(1)''"
  by (simp add: number_eval parts_1 parts_17_digits float_17_digits py_str.simps)

lemma fuv_bare_sign: "format_uncertain_value ''1e+'' ''1'' = Inl ValueError"
  by (simp add: number_eval parts_1e_plus parts_1)

lemma fuv_overflow:
  "format_uncertain_value ''1e1'' (CHR ''1'' # replicate 310 CHR ''0'') = Inl OverflowError"
proof -
  let ?u = "CHR ''1'' # replicate 310 CHR ''0''"
  let ?vp = "[[], ''1'', [], [], ''e'', ''1'']" and ?up = "[[], ?u, [], [], [], []]"
  have d: "?u \<noteq> []" "list_all is_digit ?u" "list_all is_digit []"
    by (simp_all add: list_all_iff is_digit_def digit_chars_def)
  have up: "number_parts ?u = Some ?up"
    by (rule number_parts_digits[OF d(1,2)])
  have "nat_of_digits (''1'' @ replicate 310 CHR ''0'') = nat_of_digits ''1'' * 10 ^ 310"
    by (rule nat_of_digits_zeros)
  then have n: "nat_of_digits (?u @ []) = 10 ^ 310"
    by (simp add: nat_of_digits_def digit_val_def del: power_numeral)
  have e: "exp_of ?vp = Inr 1" "exp_of ?up = Inr 0"
    by (simp_all add: exp_of_def py_int_def is_digit_def digit_chars_def nat_of_digits_def digit_val_def)
  have k: "nat (- discrepancy 1 0 ?vp ?up) = 1"
    by (simp add: discrepancy_def)
  have "shown_digits ?vp ?up =
        (case py_ceil (float_of_decimal (10 ^ 310) 1) of Inl err \<Rightarrow> Inl err | Inr c \<Rightarrow> Inr (py_str c))"
    by (rule shown_digits_round[OF d refl n _ e k]) simp_all
  then have "shown_digits ?vp ?up = Inl OverflowError"
    by (simp only: float_overflow sum.case)
  then show ?thesis
    by (simp add: format_uncertain_value_def parts_1e1 up)
qed

lemma fuv_m1_5em3: "format_uncertain_value ''-1.5e-3'' ''0.2e-3'' = Inr ''-1.5(02)e-3''"
  by (simp add: number_eval parts_m1_5em3 parts_0_2em3)

section \<open>Properties of the unit formatter\<close>



text \<open>
  Claim C7: for every unit expression with a token whose base symbol is not in the symbol
  table, \<^verbatim>\<open>format_unit\<close> fails with the unknown-unit error (the KeyError of the table
  lookup) naming that symbol, at once and without a default: when the tokens before it
  are known, the error names the first unknown symbol, whatever follows.  The instance
  below is \<^verbatim>\<open>format_unit("xyz")\<close>.
\<close>

theorem C7_unknown_symbol:
  assumes "findall3 unit_regex s = pre @ (b, sg, e) # post"
    and "\<forall>t\<in>set pre. map_of unit_map (fst t) \<noteq> None"
    and "map_of unit_map b = None"
  shows "format_unit s = Inl (KeyError b)"
  unfolding format_unit_def assms(1) by (rule loop_KeyError[OF assms(2,3)])

theorem C7_witness:
  "format_unit ''xyz'' = Inl (KeyError ''xyz'')
   \<and> format_unit ''kg xyz m'' = Inl (KeyError ''xyz'')"
  using C7_unknown_symbol[OF tokens_xyz] C7_unknown_symbol[OF tokens_kg_xyz_m]
  by (simp add: unit_map_def)

text \<open>
  Claim C10: \<^verbatim>\<open>format_unit\<close> never fails on a syntactically malformed expression.  For
  every input it either returns or fails with the KeyError of a base symbol that the
  pattern matched and the table lacks; characters that form no token are skipped, so an
  input without letters (the empty string among them) gives the empty string.
\<close>

theorem C10_malformed_skipped:
  "((\<exists>out. format_unit s = Inr out)
    \<or> (\<exists>b sg e. (b, sg, e) \<in> set (findall3 unit_regex s) \<and> map_of unit_map b = None
                 \<and> format_unit s = Inl (KeyError b)))
   \<and> (set s \<inter> set letter_chars = {} \<longrightarrow> format_unit s = Inr [])"
proof
  show "(\<exists>out. format_unit s = Inr out)
    \<or> (\<exists>b sg e. (b, sg, e) \<in> set (findall3 unit_regex s) \<and> map_of unit_map b = None
                 \<and> format_unit s = Inl (KeyError b))"
    unfolding format_unit_def by (rule loop_total)
  show "set s \<inter> set letter_chars = {} \<longrightarrow> format_unit s = Inr []"
    by (simp add: format_unit_def findall3_def findall_nonletters)
qed

theorem C10_witness:
  "format_unit [] = Inr [] \<and> format_unit ''^-2 (?) 10^3'' = Inr []"
  using C10_malformed_skipped[of "[]"] C10_malformed_skipped[of "''^-2 (?) 10^3''"]
  by (simp add: letter_chars_def)

section \<open>Properties of the uncertainty aligner\<close>










lemma digit_not_paren: "is_digit c \<Longrightarrow> c \<noteq> CHR ''('' \<and> c \<noteq> CHR '')''"
  by (auto simp: is_digit_def digit_chars_def)

lemma digits_no_paren:
  "list_all is_digit ds \<Longrightarrow> CHR ''('' \<notin> set ds \<and> CHR '')'' \<notin> set ds"
  using digit_not_paren by (auto simp: list_all_iff)

lemma sign_no_paren: "sign_text t \<Longrightarrow> CHR ''('' \<notin> set t"
  by (auto simp: sign_text_def)

lemma strip_inserted:
  assumes "CHR ''('' \<notin> set a" and "CHR '')'' \<notin> set d"
  shows "strip_parenthetical (a @ ''('' @ d @ '')'' @ b) = a @ b"
proof -
  let ?open = "\<lambda>c. c \<noteq> CHR ''(''" and ?close = "\<lambda>c. c \<noteq> CHR '')''"
  have a: "\<forall>x\<in>set a. ?open x" using assms(1) by auto
  have d: "\<forall>x\<in>set d. ?close x" using assms(2) by auto
  have t: "takeWhile ?open (a @ CHR ''('' # d @ CHR '')'' # b) = a"
    using a by (simp add: takeWhile_tail)
  have "dropWhile ?open (a @ CHR ''('' # d @ CHR '')'' # b) = CHR ''('' # d @ CHR '')'' # b"
    using a by (simp add: dropWhile_append3)
  moreover have "dropWhile ?close (CHR ''('' # d @ CHR '')'' # b) = CHR '')'' # b"
    using d by (simp add: dropWhile_append3)
  ultimately show ?thesis
    using t by (simp add: strip_parenthetical_def)
qed

text \<open>
  Claim C1, amended: for every value and uncertainty that both fully match the grammar,
  whenever \<^verbatim>\<open>format_uncertain_value\<close> returns, its output is the value's literal text
  (sign, integer digits, decimal point, fractional digits, exponent marker, exponent run,
  each as in the original) with a parenthesized, non-empty digit string inserted right
  after the fractional digits and before the exponent marker, and removing the
  parenthetical gives the value string back.  (The function does not return for every
  such pair: see the counterexample below.)
\<close>

theorem C1_value_text_preserved:
  assumes "number_parts v = Some vp" and "number_parts u = Some up"
    and "format_uncertain_value v u = Inr out"
  shows "v = vp ! 0 @ vp ! 1 @ vp ! 2 @ vp ! 3 @ vp ! 4 @ vp ! 5
       \<and> sign_text (vp ! 0) \<and> vp ! 1 \<noteq> [] \<and> list_all is_digit (vp ! 1)
       \<and> (vp ! 2 = [] \<or> vp ! 2 = ''.'') \<and> list_all is_digit (vp ! 3)
       \<and> (vp ! 4 = [] \<or> vp ! 4 = ''e'')
       \<and> (\<exists>d. d \<noteq> [] \<and> list_all is_digit d
              \<and> out = vp ! 0 @ vp ! 1 @ vp ! 2 @ vp ! 3 @ ''('' @ d @ '')'' @ vp ! 4 @ vp ! 5)
       \<and> strip_parenthetical out = v"
proof -
  obtain sg ip dot fr em es ed where vp: "vp = [sg, ip, dot, fr, em, es @ ed]"
    and v: "v = sg @ ip @ dot @ fr @ em @ es @ ed"
    and p: "sign_text sg" "ip \<noteq> []" "list_all is_digit ip" "dot = [] \<or> dot = ''.''"
      "list_all is_digit fr" "em = [] \<or> em = ''e''"
    using assms(1) by (rule number_parts_SomeD)
  obtain usg uip udot ufr uem ues ued where up: "up = [usg, uip, udot, ufr, uem, ues @ ued]"
    and q: "uip \<noteq> []" "list_all is_digit uip" "list_all is_digit ufr"
    using assms(2) by (rule number_parts_SomeD)
  obtain d where sd: "shown_digits vp up = Inr d"
    and out: "out = sg @ ip @ dot @ fr @ ''('' @ d @ '')'' @ em @ es @ ed"
    using assms(3) by (auto simp: format_uncertain_value_def assms(1,2) vp split: sum.splits)
  have d: "d \<noteq> [] \<and> list_all is_digit d"
    by (rule shown_digits_are_digits[OF q up sd])
  have "CHR ''('' \<notin> set (sg @ ip @ dot @ fr)"
    using p sign_no_paren[of sg] digits_no_paren[of ip] digits_no_paren[of fr] by auto
  moreover have "CHR '')'' \<notin> set d"
    using d digits_no_paren[of d] by simp
  ultimately have "strip_parenthetical ((sg @ ip @ dot @ fr) @ ''('' @ d @ '')'' @ (em @ es @ ed))
                   = (sg @ ip @ dot @ fr) @ (em @ es @ ed)"
    by (rule strip_inserted)
  then have "strip_parenthetical out = v"
    by (simp add: out v)
  then show ?thesis
    using v p d out by (simp add: vp)
qed

theorem C1_witness:
  "format_uncertain_value ''-1.5e-3'' ''0.2e-3'' = Inr ''-1.5(02)e-3''
   \<and> strip_parenthetical ''-1.5(02)e-3'' = ''-1.5e-3''"
  using C1_value_text_preserved[OF parts_m1_5em3 parts_0_2em3 fuv_m1_5em3] fuv_m1_5em3
  by simp

text \<open>
  Claim C1, as stated, promises an output for every pair of matching inputs.  Two matching
  pairs have none: an exponent run that is a bare sign makes \<^verbatim>\<open>int\<close> raise ValueError, and
  an uncertainty of 311 digits scaled by \<open>10 ^ (- 1)\<close> is the float infinity, on which
  \<^verbatim>\<open>ceil\<close> raises OverflowError.
\<close>

theorem C1_counterexample:
  "number_parts ''1e+'' = Some [[], ''1'', [], [], ''e'', ''+'']
   \<and> number_parts ''1'' = Some [[], ''1'', [], [], [], []]
   \<and> format_uncertain_value ''1e+'' ''1'' = Inl ValueError
   \<and> number_parts ''1e1'' = Some [[], ''1'', [], [], ''e'', ''1'']
   \<and> number_parts (CHR ''1'' # replicate 310 CHR ''0'') = Some [[], CHR ''1'' # replicate 310 CHR ''0'', [], [], [], []]
   \<and> format_uncertain_value ''1e1'' (CHR ''1'' # replicate 310 CHR ''0'') = Inl OverflowError"
  by (simp only: parts_1e_plus parts_1 fuv_bare_sign parts_1e1 parts_310_zeros fuv_overflow simp_thms)

text \<open>
  Claim C9: for every well-formed value and uncertainty, if the uncertainty's integer and
  fractional digit runs, concatenated, are numerically zero, the function returns the
  value's parts with \<^verbatim>\<open>(0)\<close> between the fractional digits and the exponent marker:
  the displayed uncertainty is the single digit \<^verbatim>\<open>0\<close>, neither rounded nor padded.  The
  instance below is \<^verbatim>\<open>format_uncertain_value("9.81", "0") = "9.81(0)"\<close>.
\<close>

theorem C9_zero_uncertainty:
  assumes "number_parts v = Some vp" and "number_parts u = Some up"
    and "nat_of_digits (up ! 1 @ up ! 3) = 0"
  shows "format_uncertain_value v u =
         Inr (vp ! 0 @ vp ! 1 @ vp ! 2 @ vp ! 3 @ ''(0)'' @ vp ! 4 @ vp ! 5)"
proof -
  obtain sg ip dot fr em es ed where up: "up = [sg, ip, dot, fr, em, es @ ed]"
    and d: "ip \<noteq> []" "list_all is_digit ip" "list_all is_digit fr"
    using assms(2) by (rule number_parts_SomeD)
  have "shown_digits vp up = Inr ''0''"
    using d up assms(3) by (intro shown_digits_zero[OF d up]) simp
  then show ?thesis
    by (simp add: format_uncertain_value_def assms(1,2))
qed

theorem C9_witness: "format_uncertain_value ''9.81'' ''0'' = Inr ''9.81(0)''"
  using C9_zero_uncertainty[OF parts_9_81 parts_0]
  by (simp add: nat_of_digits_def digit_val_def)






section \<open>Rounding of over-precise uncertainties\<close>

text \<open>
  Within the precision of a float the rounding branch is the exact ceiling: for
  uncertainty digits below \<open>2 ^ 53\<close> and a discrepancy from \<open>-323\<close> to \<open>-1\<close>, the displayed
  digits are those of \<open>exact_ceiling\<close>.
\<close>

lemma rounding_exact_within_double:
  assumes "number_parts v = Some vp" and "number_parts u = Some up"
    and "0 < nat_of_digits (up ! 1 @ up ! 3)" and "nat_of_digits (up ! 1 @ up ! 3) < 2 ^ 53"
    and "exp_of vp = Inr val_exp" and "exp_of up = Inr unc_exp"
    and "discrepancy val_exp unc_exp vp up < 0" and "- 323 \<le> discrepancy val_exp unc_exp vp up"
  shows "format_uncertain_value v u =
         Inr (vp ! 0 @ vp ! 1 @ vp ! 2 @ vp ! 3
              @ ''('' @ py_str (exact_ceiling (nat_of_digits (up ! 1 @ up ! 3))
                                  (nat (- discrepancy val_exp unc_exp vp up)))
              @ '')'' @ vp ! 4 @ vp ! 5)"
proof -
  obtain sg ip dot fr em es ed where up: "up = [sg, ip, dot, fr, em, es @ ed]"
    and d: "ip \<noteq> []" "list_all is_digit ip" "list_all is_digit fr"
    using assms(2) by (rule number_parts_SomeD)
  define n where "n = nat_of_digits (ip @ fr)"
  define k where "k = nat (- discrepancy val_exp unc_exp vp up)"
  have n: "0 < n" "n < 2 ^ 53" using assms(3,4) by (simp_all add: n_def up)
  have k: "0 < k" "k \<le> 323" using assms(7,8) by (simp_all add: k_def)
  have c: "py_ceil (float_of_decimal n k) = Inr (exact_ceiling n k)"
    by (rule ceil_float_exact[OF n k])
  have "py_int (ip @ fr) = Inr (int n)"
    unfolding n_def using d by (intro py_int_digits) simp_all
  then have "shown_digits vp up = Inr (py_str (exact_ceiling n k))"
    using n(1) assms(5,6,7) c
    by (simp add: shown_digits_def Let_def k_def up)
  then show ?thesis
    by (simp add: format_uncertain_value_def assms(1,2) n_def k_def up)
qed

text \<open>
  Claim C4 says that for a negative discrepancy the displayed digits are the exact integer
  ceiling of \<^verbatim>\<open>unc_digits\<close> scaled by \<open>10 ^ discrepancy\<close>.  The code takes the ceiling of
  \<^verbatim>\<open>float(...)\<close>, which has already rounded the scaled number to the nearest binary64
  value.  For the value \<^verbatim>\<open>1\<close> and the uncertainty \<^verbatim>\<open>1.0000000000000001\<close> the discrepancy
  is \<open>-16\<close>, the float is exactly \<open>1.0\<close> and the code displays \<^verbatim>\<open>1\<close>, where the exact
  ceiling is \<open>2\<close>.
\<close>

theorem C4_float_rounds_first:
  "format_uncertain_value ''1'' ''1.0000000000000001'' = Inr ''1(1)''
   \<and> py_str (exact_ceiling (nat_of_digits ''10000000000000001'') 16) = ''2''"
  by (simp add: fuv_17_digits exact_ceiling_def nat_of_digits_def digit_val_def
      py_str.simps digit_chars_def)

section \<open>Worked examples of the uncertainty aligner\<close>

text \<open>
  Claim C2, as stated: \<^verbatim>\<open>format_uncertain_value("1.234", "0.006")\<close> returns
  \<^verbatim>\<open>"1.234(006)"\<close>.  It does not: the integer digit run \<^verbatim>\<open>0\<close> of the uncertainty is part
  of \<^verbatim>\<open>unc_digits\<close>.
\<close>

theorem C2_counterexample:
  "format_uncertain_value ''1.234'' ''0.006'' \<noteq> Inr ''1.234(006)''"
  by (simp add: fuv_1_234)

text \<open>
  Claim C2, amended: \<^verbatim>\<open>format_uncertain_value("1.234", "0.006")\<close> returns exactly
  \<^verbatim>\<open>"1.234(0006)"\<close>: the uncertainty digits are the integer digit run \<^verbatim>\<open>0\<close> followed by
  the fractional digit run \<^verbatim>\<open>006\<close>, and the discrepancy is zero.
\<close>

theorem C2_value_1_234:
  "format_uncertain_value ''1.234'' ''0.006'' = Inr ''1.234(0006)''"
  by (rule fuv_1_234)

text \<open>
  Claim C3, as stated: \<^verbatim>\<open>format_uncertain_value("2.0", "0.003")\<close> returns
  \<^verbatim>\<open>"2.0(003)"\<close>.  It does not: the value has one fractional digit and the uncertainty
  three, so the discrepancy is \<open>-2\<close> and the uncertainty is rounded up.
\<close>

theorem C3_counterexample:
  "format_uncertain_value ''2.0'' ''0.003'' \<noteq> Inr ''2.0(003)''"
  by (simp add: fuv_2_0)

text \<open>
  Claim C3, amended: \<^verbatim>\<open>format_uncertain_value("2.0", "0.003")\<close> returns exactly
  \<^verbatim>\<open>"2.0(1)"\<close>: the digits \<^verbatim>\<open>0003\<close> scaled by \<open>10 ^ (- 2)\<close> are rounded up to \<open>1\<close>.
\<close>

theorem C3_value_2_0:
  "format_uncertain_value ''2.0'' ''0.003'' = Inr ''2.0(1)''"
  by (rule fuv_2_0)

end
